theory Spec2Isabelle
  imports Main "HOL-Library.Product_Lexorder"
begin

section \<open>Python values, errors and list operations\<close>

text \<open>
  The program is Python 3. Its integers are unbounded, so they are \<open>int\<close>. Every
  exception the modelled code can raise is a value of \<open>error\<close>, and a computation that may
  raise returns \<open>error + 'a\<close> with \<open>Inl\<close> for the exception.
\<close>

datatype error = TypeError | IndexError | ValueError | KeyError | AttributeError

fun and_then :: "error + 'a \<Rightarrow> ('a \<Rightarrow> error + 'b) \<Rightarrow> error + 'b" where
  "and_then (Inl e) f = Inl e"
| "and_then (Inr x) f = f x"

text \<open>Subscripting \<open>xs[i]\<close>: a negative index counts from the end, anything outside raises.\<close>

definition norm_index :: "'a list \<Rightarrow> int \<Rightarrow> error + nat" where
  "norm_index xs i =
     (if 0 \<le> i \<and> i < int (length xs) then Inr (nat i)
      else if i < 0 \<and> 0 \<le> i + int (length xs) then Inr (nat (i + int (length xs)))
      else Inl IndexError)"

definition getitem :: "'a list \<Rightarrow> int \<Rightarrow> error + 'a" where
  "getitem xs i = and_then (norm_index xs i) (\<lambda>j. Inr (xs ! j))"

definition setitem :: "'a list \<Rightarrow> int \<Rightarrow> 'a \<Rightarrow> error + 'a list" where
  "setitem xs i v = and_then (norm_index xs i) (\<lambda>j. Inr (xs[j := v]))"

text \<open>\<open>xs.index(v)\<close>: the first position holding \<open>v\<close>, ValueError when there is none.\<close>

fun list_index :: "int list \<Rightarrow> int \<Rightarrow> error + int" where
  "list_index [] v = Inl ValueError"
| "list_index (x # xs) v =
     (if x = v then Inr 0 else and_then (list_index xs v) (\<lambda>i. Inr (i + 1)))"

text \<open>
  \<open>a is not b\<close> on integers compares object identity. CPython keeps one object for each
  integer from -5 to 256, so there identity is equality; a larger integer read twice from
  the input (as \<open>to_int_arr\<close> does for the two boards) is two objects.
\<close>

definition small_int :: "int \<Rightarrow> bool" where
  "small_int a = (- 5 \<le> a \<and> a \<le> 256)"

definition is_not :: "int \<Rightarrow> int \<Rightarrow> bool" where
  "is_not a b = (a \<noteq> b \<or> \<not> small_int a)"

section \<open>Board model\<close>

definition to_2d_array :: "int list \<Rightarrow> int list list" where
  "to_2d_array one_d_board =
     map (\<lambda>i. take 4 (drop (i * 4) one_d_board))
       [0 ..< (length one_d_board + 4 - 1) div 4]"

text \<open>\<open>val_multiplier\<close> falls off its last \<open>elif\<close> for a value outside 0..15 and returns None.\<close>

definition val_multiplier :: "int \<Rightarrow> int option" where
  "val_multiplier val =
     (if val = 0 then Some 0
      else if 0 < val \<and> val < 10 then Some 1
      else if 10 \<le> val \<and> val \<le> 15 then Some 10
      else None)"

datatype PuzzleState = PuzzleState
  (parent_id: "nat option")
  (id_no: nat)
  (board_state_1d: "int list")
  (board_state: "int list list")
  (goal_puzzle_state: "PuzzleState option")
  (h1_of_n: int)
  (h2_of_n: int)
  (g_of_n: int)
  (f1_of_n: int)
  (f2_of_n: int)
  (depth: int)

text \<open>
  \<open>find\<close> scans rows 0..3 and columns 0..3 of the 2D view in row-major order. Reading a
  cell the view does not have raises IndexError; running off the end returns None.
\<close>

definition range4 :: "int list" where
  "range4 = [0, 1, 2, 3]"

fun find_scan :: "int list list \<Rightarrow> int \<Rightarrow> (int \<times> int) list \<Rightarrow> error + (int \<times> int) option" where
  "find_scan grid val [] = Inr None"
| "find_scan grid val ((row, col) # rest) =
     and_then (getitem grid row) (\<lambda>r.
     and_then (getitem r col) (\<lambda>x.
       if x = val then Inr (Some (row, col)) else find_scan grid val rest))"

definition find_val :: "int list list \<Rightarrow> int \<Rightarrow> error + (int \<times> int) option" where
  "find_val grid val = find_scan grid val (List.product range4 range4)"

text \<open>Unpacking \<open>[row, col] = self.find(v)\<close> raises TypeError when \<open>find\<close> returned None.\<close>

definition unpack :: "error + (int \<times> int) option \<Rightarrow> error + (int \<times> int)" where
  "unpack r = and_then r (\<lambda>p. case p of None \<Rightarrow> Inl TypeError | Some rc \<Rightarrow> Inr rc)"

section \<open>Heuristics\<close>

fun h1_loop :: "int list \<Rightarrow> int list \<Rightarrow> int \<Rightarrow> int \<Rightarrow> error + int" where
  "h1_loop [] goal idx count = Inr count"
| "h1_loop (piece # rest) goal idx count =
     and_then (getitem goal idx) (\<lambda>goal_piece.
       if is_not piece goal_piece then
         (case val_multiplier piece of
            None \<Rightarrow> Inl TypeError
          | Some multiplier \<Rightarrow> h1_loop rest goal (idx + 1) (count + multiplier))
       else h1_loop rest goal (idx + 1) count)"

definition estimated_cost_to_goal_h1 :: "int list \<Rightarrow> PuzzleState option \<Rightarrow> error + int" where
  "estimated_cost_to_goal_h1 board goal =
     (case goal of
        None \<Rightarrow> Inr 0
      | Some g \<Rightarrow> and_then (h1_loop board (board_state_1d g) 0 0) (\<lambda>count. Inr (count - 1)))"

fun h2_loop :: "int list list \<Rightarrow> int list list \<Rightarrow> int list \<Rightarrow> int \<Rightarrow> error + int" where
  "h2_loop grid goal_grid [] tot = Inr tot"
| "h2_loop grid goal_grid (piece # rest) tot =
     and_then (unpack (find_val grid piece)) (\<lambda>(cur_row, cur_col).
     and_then (unpack (find_val goal_grid piece)) (\<lambda>(goal_row, goal_col).
       case val_multiplier piece of
         None \<Rightarrow> Inl TypeError
       | Some multiplier \<Rightarrow>
           h2_loop grid goal_grid rest
             (tot + multiplier * (\<bar>goal_row - cur_row\<bar> + \<bar>goal_col - cur_col\<bar>))))"

definition estimated_cost_to_goal_h2 :: "int list list \<Rightarrow> PuzzleState option \<Rightarrow> error + int" where
  "estimated_cost_to_goal_h2 grid goal =
     (case goal of
        None \<Rightarrow> Inr 0
      | Some g \<Rightarrow> h2_loop grid (board_state g) [1 .. 15] 0)"

section \<open>State nodes\<close>

text \<open>
  The constructor. \<open>id(self)\<close> is the address of the new object; the model takes the
  identifier as an argument, and the search supplies it from an allocator.
\<close>

definition new_PuzzleState ::
  "nat \<Rightarrow> int list \<Rightarrow> PuzzleState option \<Rightarrow> nat option \<Rightarrow> int \<Rightarrow> int \<Rightarrow> error + PuzzleState" where
  "new_PuzzleState ident board goal_state parent dep cost_so_far =
     and_then (estimated_cost_to_goal_h1 board goal_state) (\<lambda>h1.
     and_then (estimated_cost_to_goal_h2 (to_2d_array board) goal_state) (\<lambda>h2.
       Inr (PuzzleState parent ident board (to_2d_array board) goal_state h1 h2
              cost_so_far (cost_so_far + h1) (cost_so_far + h2) dep)))"

definition move_cost :: "int list \<Rightarrow> int \<Rightarrow> error + int option" where
  "move_cost board target_pos =
     and_then (getitem board target_pos) (\<lambda>val_being_moved.
       if 0 < val_being_moved \<and> val_being_moved < 10 then Inr (Some 1)
       else if 10 \<le> val_being_moved \<and> val_being_moved \<le> 15 then Inr (Some 10)
       else Inr None)"

definition dirs :: "string \<rightharpoonup> int" where
  "dirs = map_of [(''up'', - 4), (''right'', 1), (''down'', 4), (''left'', - 1)]"

definition move :: "nat \<Rightarrow> PuzzleState \<Rightarrow> string \<Rightarrow> error + PuzzleState" where
  "move ident self direction =
     and_then (list_index (board_state_1d self) 0) (\<lambda>zero_pos.
     case dirs direction of
       None \<Rightarrow> Inl KeyError
     | Some delta \<Rightarrow>
         (let target_pos = zero_pos + delta; new_board = board_state_1d self in
          and_then (move_cost (board_state_1d self) target_pos) (\<lambda>cost.
          case cost of
            None \<Rightarrow> Inl TypeError
          | Some c \<Rightarrow>
              (let cost_so_far = g_of_n self + c in
               and_then (getitem new_board target_pos) (\<lambda>moved.
               and_then (getitem new_board zero_pos) (\<lambda>blank.
               and_then (setitem new_board zero_pos moved) (\<lambda>b1.
               and_then (setitem b1 target_pos blank) (\<lambda>b2.
                 new_PuzzleState ident b2 (goal_puzzle_state self) (Some (id_no self))
                   (depth self + 1) cost_so_far))))))))"

definition valid_moves :: "int \<Rightarrow> int \<Rightarrow> string list" where
  "valid_moves row col =
     (if row > 0 then [''up''] else []) @
     (if row < 3 then [''down''] else []) @
     (if col > 0 then [''left''] else []) @
     (if col < 3 then [''right''] else [])"

text \<open>
  \<open>list(map(self.move, valid_moves))\<close>: the successors are constructed in order, the
  \<open>j\<close>-th of them being object number \<open>k + j\<close> of the run, with identifier \<open>ids (k + j)\<close>.
\<close>

fun map_move :: "(nat \<Rightarrow> nat) \<Rightarrow> nat \<Rightarrow> PuzzleState \<Rightarrow> string list \<Rightarrow> error + PuzzleState list" where
  "map_move ids k self [] = Inr []"
| "map_move ids k self (d # ds) =
     and_then (move (ids k) self d) (\<lambda>s.
     and_then (map_move ids (Suc k) self ds) (\<lambda>ss. Inr (s # ss)))"

definition expand :: "(nat \<Rightarrow> nat) \<Rightarrow> nat \<Rightarrow> PuzzleState \<Rightarrow> error + PuzzleState list" where
  "expand ids k self =
     and_then (unpack (find_val (board_state self) 0)) (\<lambda>(row, col).
       map_move ids k self (valid_moves row col))"

section \<open>Search driver\<close>

text \<open>
  The open list is a \<open>heapq\<close> heap of tuples \<open>(priority, id_no, state)\<close>. Tuples compare by
  priority, then by identifier; live objects have distinct identifiers, so the comparison
  never reaches the state. The model keeps the entries ordered by \<open>(priority, id_no)\<close>
  instead of in the heap's array layout: \<open>heappop\<close> removes the least entry either way, and
  raises IndexError on an empty heap.
\<close>

type_synonym entry = "int \<times> nat \<times> PuzzleState"

definition entry_key :: "entry \<Rightarrow> int \<times> nat" where
  "entry_key item = (fst item, fst (snd item))"

definition heappush :: "entry list \<Rightarrow> entry \<Rightarrow> entry list" where
  "heappush heap item = insort_key entry_key item heap"

definition heappop :: "entry list \<Rightarrow> error + (entry \<times> entry list)" where
  "heappop heap = (case heap of [] \<Rightarrow> Inl IndexError | item # rest \<Rightarrow> Inr (item, rest))"

definition get_parent_state :: "PuzzleState \<Rightarrow> PuzzleState list \<Rightarrow> PuzzleState option" where
  "get_parent_state state closed_list =
     List.find (\<lambda>closed_state. Some (id_no closed_state) = parent_id state) closed_list"

text \<open>
  The \<open>while\<close> loop of \<open>get_state_path\<close>. When no closed state has the parent's identifier,
  \<open>get_parent_state\<close> returns None and the next test of \<open>cur_state.depth\<close> raises
  AttributeError. The loop need not end, so the result is an option.
\<close>

partial_function (option) path_loop ::
  "PuzzleState \<Rightarrow> PuzzleState list \<Rightarrow> PuzzleState list \<Rightarrow> (error + PuzzleState list) option" where
  "path_loop cur_state path closed_list =
     (if depth cur_state \<noteq> 0 then
        (case get_parent_state cur_state closed_list of
           None \<Rightarrow> Some (Inl AttributeError)
         | Some parent_state \<Rightarrow> path_loop parent_state (path @ [parent_state]) closed_list)
      else Some (Inr path))"

declare path_loop.simps [code]

definition get_state_path ::
  "PuzzleState \<Rightarrow> PuzzleState list \<Rightarrow> (error + PuzzleState list) option" where
  "get_state_path end_state closed_list = path_loop end_state [end_state] closed_list"

text \<open>What \<open>print_success_message\<close> prints, as a record.\<close>

record report =
  solved_with :: string
  path :: "PuzzleState list"
  number_of_moves :: int
  added_to_open :: int
  added_to_closed :: int

definition print_success_message ::
  "PuzzleState \<Rightarrow> PuzzleState list \<Rightarrow> int \<Rightarrow> string \<Rightarrow> (error + report) option" where
  "print_success_message end_state closed_list added_to_open_list method =
     (case get_state_path end_state closed_list of
        None \<Rightarrow> None
      | Some (Inl e) \<Rightarrow> Some (Inl e)
      | Some (Inr p) \<Rightarrow>
          Some (Inr \<lparr>solved_with = method, path = p, number_of_moves = int (length p) - 1,
                     added_to_open = added_to_open_list,
                     added_to_closed = int (length closed_list)\<rparr>))"

text \<open>
  The body of the \<open>for new_state in expansions\<close> loop: the priority is the depth for bfs,
  f1 for a_star_h1 and f2 for a_star_h2; any other method pushes nothing.
\<close>

definition push_state :: "string \<Rightarrow> entry list \<Rightarrow> PuzzleState \<Rightarrow> entry list" where
  "push_state method open_list new_state =
     (if method = ''bfs'' then heappush open_list (depth new_state, id_no new_state, new_state)
      else if method = ''a_star_h1'' then
        heappush open_list (f1_of_n new_state, id_no new_state, new_state)
      else if method = ''a_star_h2'' then
        heappush open_list (f2_of_n new_state, id_no new_state, new_state)
      else open_list)"

primrec push_expansions :: "string \<Rightarrow> PuzzleState list \<Rightarrow> entry list \<Rightarrow> entry list" where
  "push_expansions method [] open_list = open_list"
| "push_expansions method (new_state # rest) open_list =
     push_expansions method rest (push_state method open_list new_state)"

text \<open>
  The \<open>while not has_solved\<close> loop of \<open>solve\<close>. Its state is the open list, the closed list,
  the counter of pushed nodes and the number \<open>k\<close> of objects constructed so far. The loop
  may run forever, so the result is an option: None is a run that never returns.
\<close>

partial_function (option) search_loop ::
  "(nat \<Rightarrow> nat) \<Rightarrow> int list \<Rightarrow> string \<Rightarrow> entry list \<Rightarrow> PuzzleState list \<Rightarrow> int \<Rightarrow> nat \<Rightarrow>
   (error + report) option" where
  "search_loop ids goal_board method open_list closed_list added_to_open_list k =
     (case heappop open_list of
        Inl e \<Rightarrow> Some (Inl e)
      | Inr (item, rest) \<Rightarrow>
          (let cur_state = snd (snd item) in
           if board_state_1d cur_state = goal_board then
             print_success_message cur_state closed_list added_to_open_list method
           else
             (case expand ids k cur_state of
                Inl e \<Rightarrow> Some (Inl e)
              | Inr expansions \<Rightarrow>
                  search_loop ids goal_board method
                    (push_expansions method expansions rest)
                    (closed_list @ [cur_state])
                    (added_to_open_list + int (length expansions))
                    (k + length expansions))))"

declare search_loop.simps [code]

definition solve :: "(nat \<Rightarrow> nat) \<Rightarrow> int list \<Rightarrow> int list \<Rightarrow> string \<Rightarrow> (error + report) option" where
  "solve ids start_board goal_board method =
     (case new_PuzzleState (ids 0) goal_board None None 0 0 of
        Inl e \<Rightarrow> Some (Inl e)
      | Inr goal_state \<Rightarrow>
          (case new_PuzzleState (ids 1) start_board (Some goal_state) None 0 0 of
             Inl e \<Rightarrow> Some (Inl e)
           | Inr start_state \<Rightarrow>
               search_loop ids goal_board method
                 (heappush [] (0, id_no start_state, start_state)) [] 0 2))"

section \<open>Boards, well-formed nodes and reachability\<close>

text \<open>A board is a permutation of 0..15: each value occurs exactly once.\<close>

definition is_board :: "int list \<Rightarrow> bool" where
  "is_board b = (distinct b \<and> set b = {0 .. 15})"

text \<open>The cell of the 2D view that holds flat position \<open>i\<close>.\<close>

definition cell_of :: "nat \<Rightarrow> int \<times> int" where
  "cell_of i = (int (i div 4), int (i mod 4))"

text \<open>
  The spec's \<open>tile_weight\<close>, in the spec's words: 0 for the blank, 1 for tiles 1 to 9 and 10
  for tiles 10 to 15.
\<close>

definition spec_tile_weight :: "int \<Rightarrow> int" where
  "spec_tile_weight v = (if v = 0 then 0 else if 1 \<le> v \<and> v \<le> 9 then 1 else 10)"

text \<open>
  Sample boards of the program: \<open>goal_board\<close> and \<open>start_board1\<close> of BPASourceCodeFile.py,
  and below \<open>ss\<close> of assgn1.py and a board with the blank in the corner (0, 0).
  \<open>goal_node\<close> is the node the constructor builds for \<open>goal_board\<close> with identifier 0; the
  other sample nodes are built the same way, with no goal.
\<close>

definition goal_board :: "int list" where
  "goal_board = [1, 2, 3, 4, 5, 6, 7, 8, 9, 10, 11, 12, 13, 14, 15, 0]"

definition start_board1 :: "int list" where
  "start_board1 = [5, 1, 3, 4, 2, 10, 6, 8, 13, 9, 7, 12, 0, 14, 11, 15]"

definition goal_node :: PuzzleState where
  "goal_node = PuzzleState None 0 goal_board (to_2d_array goal_board) None 0 0 0 0 0 0"

text \<open>The goal of a node, when there is one, is itself a board with its 2D view.\<close>

definition goal_ok :: "PuzzleState option \<Rightarrow> bool" where
  "goal_ok goal = (case goal of
         None \<Rightarrow> True
       | Some g \<Rightarrow> is_board (board_state_1d g) \<and> board_state g = to_2d_array (board_state_1d g))"

text \<open>One step of expansion: \<open>s\<close> is among the successors \<open>expand\<close> returns for \<open>n\<close>.\<close>

inductive expands_to :: "PuzzleState \<Rightarrow> PuzzleState \<Rightarrow> bool" where
  "expand ids k n = Inr ss \<Longrightarrow> s \<in> set ss \<Longrightarrow> expands_to n s"

text \<open>A node as the constructor builds it: the 2D view is the reshaped flat board.\<close>

definition wf_node :: "PuzzleState \<Rightarrow> bool" where
  "wf_node n =
     (is_board (board_state_1d n) \<and> board_state n = to_2d_array (board_state_1d n) \<and>
      goal_ok (goal_puzzle_state n))"

text \<open>
  \<open>s\<close> is what \<open>move\<close> returns for node \<open>n\<close> with the blank at flat position \<open>z\<close>, direction
  \<open>d\<close> and identifier \<open>ident\<close>: the blank swaps with the tile at the target position \<open>t\<close>.
\<close>

definition succ_of :: "PuzzleState \<Rightarrow> nat \<Rightarrow> nat \<Rightarrow> string \<Rightarrow> PuzzleState \<Rightarrow> bool" where
  "succ_of n z ident d s =
    (\<exists>delta t. dirs d = Some delta \<and> int z + delta = int t \<and> t < 16 \<and> t \<noteq> z
    \<and> move ident n d = Inr s
    \<and> board_state_1d s = (board_state_1d n)[z := board_state_1d n ! t, t := 0]
    \<and> 1 \<le> board_state_1d n ! t \<and> board_state_1d n ! t \<le> 15
    \<and> g_of_n s = g_of_n n + (if board_state_1d n ! t < 10 then 1 else 10)
    \<and> depth s = depth n + 1 \<and> parent_id s = Some (id_no n) \<and> id_no s = ident
    \<and> goal_puzzle_state s = goal_puzzle_state n
    \<and> board_state s = to_2d_array (board_state_1d s) \<and> is_board (board_state_1d s))"

definition corner_board :: "int list" where
  "corner_board = [0, 1, 2, 3, 4, 5, 6, 7, 8, 9, 10, 11, 12, 13, 14, 15]"

definition corner_node :: PuzzleState where
  "corner_node = PuzzleState None 1 corner_board (to_2d_array corner_board) None 0 0 0 0 0 0"

definition ss_board :: "int list" where
  "ss_board = [5, 15, 7, 8, 9, 11, 10, 3, 12, 0, 2, 13, 4, 14, 1, 6]"

definition ss_node :: PuzzleState where
  "ss_node = PuzzleState None 1 ss_board (to_2d_array ss_board) None 0 0 0 0 0 0"

text \<open>
  The moves open on a board, read off \<open>expand\<close>: the boards of the successors of a fresh
  node (no goal, cost 0) holding the board, each with the cost \<open>expand\<close> charges for it.
\<close>

definition board_moves :: "int list \<Rightarrow> (int list \<times> int) list" where
  "board_moves b =
     (case new_PuzzleState 0 b None None 0 0 of
        Inl e \<Rightarrow> []
      | Inr n \<Rightarrow>
          (case expand id 0 n of
             Inl e \<Rightarrow> []
           | Inr ss \<Rightarrow> map (\<lambda>s. (board_state_1d s, g_of_n s)) ss))"

text \<open>
  A move sequence is a list of boards in which each board is followed by one of its
  moves; \<open>walk_cost\<close> is its total cost, None when some step is not a move.
\<close>

fun walk_cost :: "int list list \<Rightarrow> int option" where
  "walk_cost [] = None"
| "walk_cost [b] = Some 0"
| "walk_cost (b # c # rest) =
     (case map_of (board_moves b) c of
        None \<Rightarrow> None
      | Some w \<Rightarrow> map_option (\<lambda>v. w + v) (walk_cost (c # rest)))"

text \<open>One move on boards, and boards reachable by a number of moves.\<close>

definition board_step :: "int list \<Rightarrow> int list \<Rightarrow> bool" where
  "board_step b c = (c \<in> fst ` set (board_moves b))"

text \<open>
  A node is linked into the search tree when it is the root (depth 0, the start board, cost
  0) or its parent is a closed node one level up from which its board is one move, at the
  cost difference of the two nodes.
\<close>

definition linked :: "int list \<Rightarrow> PuzzleState list \<Rightarrow> PuzzleState \<Rightarrow> bool" where
  "linked start closed_list n =
     (wf_node n \<and> 0 \<le> depth n \<and>
      (if depth n = 0 then board_state_1d n = start \<and> g_of_n n = 0
       else (\<exists>p \<in> set closed_list. parent_id n = Some (id_no p) \<and> depth n = depth p + 1
               \<and> (board_state_1d n, g_of_n n - g_of_n p) \<in> set (board_moves (board_state_1d p)))))"

text \<open>The state carried by an open-list entry.\<close>

definition entry_state :: "entry \<Rightarrow> PuzzleState" where
  "entry_state item = snd (snd item)"

text \<open>
  A bound on the work left below an open node at distance \<open>j\<close> from the level of the
  nearest goal: the node itself and at most four successors one level down.
\<close>

fun branch_weight :: "nat \<Rightarrow> nat" where
  "branch_weight 0 = 1"
| "branch_weight (Suc j) = 4 * branch_weight j + 1"

definition entry_weight :: "nat \<Rightarrow> entry \<Rightarrow> nat" where
  "entry_weight k0 item =
     (if 0 \<le> depth (entry_state item) \<and> depth (entry_state item) \<le> int k0
      then branch_weight (k0 - nat (depth (entry_state item))) else 0)"

text \<open>
  The invariant of the breadth-first loop, for a goal \<open>k0\<close> moves from the start: the open
  list is ordered, its entries carry the depth as priority and are linked nodes whose
  board is \<open>depth\<close> moves from the start, the closed nodes are linked, every identifier was
  issued by the allocator before object \<open>k\<close> and no two nodes share one, and some open node
  lies on a shortest way to the goal.
\<close>

definition bfs_inv ::
  "(nat \<Rightarrow> nat) \<Rightarrow> int list \<Rightarrow> int list \<Rightarrow> nat \<Rightarrow> entry list \<Rightarrow> PuzzleState list \<Rightarrow> nat \<Rightarrow> bool" where
  "bfs_inv ids start goal k0 ol cl k =
     (sorted (map entry_key ol)
      \<and> (\<forall>item \<in> set ol. fst item = depth (entry_state item)
            \<and> linked start cl (entry_state item)
            \<and> (board_step ^^ nat (depth (entry_state item))) start
                 (board_state_1d (entry_state item)))
      \<and> (\<forall>n \<in> set cl. linked start cl n)
      \<and> (\<forall>n \<in> entry_state ` set ol \<union> set cl. \<exists>j < k. id_no n = ids j)
      \<and> inj_on id_no (entry_state ` set ol \<union> set cl)
      \<and> (\<exists>item \<in> set ol. depth (entry_state item) \<le> int k0
            \<and> (board_step ^^ (k0 - nat (depth (entry_state item))))
                 (board_state_1d (entry_state item)) goal))"

text \<open>
  The moves of a board in closed form: the blank at flat position \<open>z\<close> swaps with the
  tile above, below, left or right of it, where the grid has such a cell, at the cost of
  that tile.
\<close>

definition blank_targets :: "nat \<Rightarrow> nat list" where
  "blank_targets z =
     (if 0 < z div 4 then [z - 4] else []) @ (if z div 4 < 3 then [z + 4] else []) @
     (if 0 < z mod 4 then [z - 1] else []) @ (if z mod 4 < 3 then [z + 1] else [])"

definition slide_moves :: "int list \<Rightarrow> (int list \<times> int) list" where
  "slide_moves b =
     (let z = length (takeWhile (\<lambda>x. x \<noteq> 0) b)
      in map (\<lambda>t. (b[z := b ! t, t := 0], if b ! t < 10 then 1 else 10)) (blank_targets z))"

text \<open>
  A bounded search over move sequences: \<open>all_above goal bound m front\<close> checks that no
  sequence continuing an entry of \<open>front\<close> by at most \<open>m\<close> moves ends on \<open>goal\<close> at a total
  cost of \<open>bound\<close> or less. Entries already above the bound are dropped, as costs only grow.
\<close>

definition extend :: "int \<Rightarrow> (int list \<times> int) list \<Rightarrow> (int list \<times> int) list" where
  "extend bound front =
     filter (\<lambda>(b, c). c \<le> bound)
       (concat (map (\<lambda>(b, c). map (\<lambda>(b', w). (b', c + w)) (slide_moves b)) front))"

fun all_above :: "int list \<Rightarrow> int \<Rightarrow> nat \<Rightarrow> (int list \<times> int) list \<Rightarrow> bool" where
  "all_above goal bound 0 front = list_all (\<lambda>(b, c). b \<noteq> goal \<or> bound < c) front"
| "all_above goal bound (Suc m) front =
     (list_all (\<lambda>(b, c). b \<noteq> goal \<or> bound < c) front
      \<and> all_above goal bound m (extend bound front))"

text \<open>
  A start and a goal eight moves apart on which the fewest moves are not the cheapest:
  the eight-move sequences slide the heavy tile 13 twice, a twelve-move sequence goes
  round it on light tiles only.
\<close>

definition detour_start :: "int list" where
  "detour_start = [10, 2, 3, 6, 0, 13, 7, 1, 5, 8, 9, 12, 14, 11, 15, 4]"

definition detour_goal :: "int list" where
  "detour_goal = [10, 2, 1, 3, 0, 13, 7, 6, 5, 8, 9, 12, 14, 11, 15, 4]"

definition short_walk :: "int list list" where
  "short_walk =
     [[10, 2, 3, 6, 0, 13, 7, 1, 5, 8, 9, 12, 14, 11, 15, 4],
      [10, 2, 3, 6, 13, 0, 7, 1, 5, 8, 9, 12, 14, 11, 15, 4],
      [10, 2, 3, 6, 13, 7, 0, 1, 5, 8, 9, 12, 14, 11, 15, 4],
      [10, 2, 3, 6, 13, 7, 1, 0, 5, 8, 9, 12, 14, 11, 15, 4],
      [10, 2, 3, 0, 13, 7, 1, 6, 5, 8, 9, 12, 14, 11, 15, 4],
      [10, 2, 0, 3, 13, 7, 1, 6, 5, 8, 9, 12, 14, 11, 15, 4],
      [10, 2, 1, 3, 13, 7, 0, 6, 5, 8, 9, 12, 14, 11, 15, 4],
      [10, 2, 1, 3, 13, 0, 7, 6, 5, 8, 9, 12, 14, 11, 15, 4],
      [10, 2, 1, 3, 0, 13, 7, 6, 5, 8, 9, 12, 14, 11, 15, 4]]"

definition cheap_walk :: "int list list" where
  "cheap_walk =
     [[10, 2, 3, 6, 0, 13, 7, 1, 5, 8, 9, 12, 14, 11, 15, 4],
      [10, 2, 3, 6, 5, 13, 7, 1, 0, 8, 9, 12, 14, 11, 15, 4],
      [10, 2, 3, 6, 5, 13, 7, 1, 8, 0, 9, 12, 14, 11, 15, 4],
      [10, 2, 3, 6, 5, 13, 7, 1, 8, 9, 0, 12, 14, 11, 15, 4],
      [10, 2, 3, 6, 5, 13, 0, 1, 8, 9, 7, 12, 14, 11, 15, 4],
      [10, 2, 3, 6, 5, 13, 1, 0, 8, 9, 7, 12, 14, 11, 15, 4],
      [10, 2, 3, 0, 5, 13, 1, 6, 8, 9, 7, 12, 14, 11, 15, 4],
      [10, 2, 0, 3, 5, 13, 1, 6, 8, 9, 7, 12, 14, 11, 15, 4],
      [10, 2, 1, 3, 5, 13, 0, 6, 8, 9, 7, 12, 14, 11, 15, 4],
      [10, 2, 1, 3, 5, 13, 7, 6, 8, 9, 0, 12, 14, 11, 15, 4],
      [10, 2, 1, 3, 5, 13, 7, 6, 8, 0, 9, 12, 14, 11, 15, 4],
      [10, 2, 1, 3, 5, 13, 7, 6, 0, 8, 9, 12, 14, 11, 15, 4],
      [10, 2, 1, 3, 0, 13, 7, 6, 5, 8, 9, 12, 14, 11, 15, 4]]"

text \<open>\<open>walk_cost\<close> computed with the closed form of the moves.\<close>

fun slide_cost :: "int list list \<Rightarrow> int option" where
  "slide_cost [] = None"
| "slide_cost [b] = Some 0"
| "slide_cost (b # c # rest) =
     (case map_of (slide_moves b) c of
        None \<Rightarrow> None
      | Some w \<Rightarrow> map_option (\<lambda>v. w + v) (slide_cost (c # rest)))"

section \<open>Lemmas on lists and boards\<close>

lemma is_board_length: "is_board b \<Longrightarrow> length b = 16"
proof -
  assume "is_board b"
  then have "length b = card {0 .. 15 :: int}"
    unfolding is_board_def using distinct_card by metis
  then show ?thesis by simp
qed

lemma is_board_check:
  "is_board b = (distinct b \<and> length b = 16 \<and> list_all (\<lambda>v. 0 \<le> v \<and> v \<le> 15) b)"
proof
  assume h: "is_board b"
  then show "distinct b \<and> length b = 16 \<and> list_all (\<lambda>v. 0 \<le> v \<and> v \<le> 15) b"
    using is_board_length[OF h] by (auto simp: is_board_def list_all_iff)
next
  assume h: "distinct b \<and> length b = 16 \<and> list_all (\<lambda>v. 0 \<le> v \<and> v \<le> 15) b"
  then have sub: "set b \<subseteq> {0 .. 15}" by (auto simp: list_all_iff)
  from h have "card (set b) = 16" by (simp add: distinct_card)
  then have "card (set b) = card {0 .. 15 :: int}" by simp
  with sub have "set b = {0 .. 15}" by (intro card_subset_eq) auto
  with h show "is_board b" by (simp add: is_board_def)
qed

lemma getitem_nat: "i < length xs \<Longrightarrow> getitem xs (int i) = Inr (xs ! i)"
  by (simp add: getitem_def norm_index_def)

lemma setitem_nat: "i < length xs \<Longrightarrow> setitem xs (int i) v = Inr (xs[i := v])"
  by (simp add: setitem_def norm_index_def)

lemma length_to_2d_array: "length b = 16 \<Longrightarrow> length (to_2d_array b) = 4"
  by (simp add: to_2d_array_def)

lemma nth_to_2d_array:
  "length b = 16 \<Longrightarrow> r < 4 \<Longrightarrow> to_2d_array b ! r = take 4 (drop (r * 4) b)"
  by (simp add: to_2d_array_def)

lemma cell_to_2d_array:
  assumes "length b = 16" "i < 16"
  shows "and_then (getitem (to_2d_array b) (int (i div 4)))
           (\<lambda>r. and_then (getitem r (int (i mod 4))) f) = f (b ! i)"
proof -
  have r: "i div 4 < 4" using assms by simp
  have row: "getitem (to_2d_array b) (int (i div 4)) = Inr (take 4 (drop (i div 4 * 4) b))"
    using assms r by (simp add: getitem_nat length_to_2d_array nth_to_2d_array)
  have "i div 4 * 4 + i mod 4 = i" by simp
  then have "i mod 4 < 16 - i div 4 * 4" using assms(2) by arith
  then have len: "i mod 4 < length (take 4 (drop (i div 4 * 4) b))"
    using assms by simp
  have "take 4 (drop (i div 4 * 4) b) ! (i mod 4) = b ! (i div 4 * 4 + i mod 4)"
    using assms by simp
  then have cell: "take 4 (drop (i div 4 * 4) b) ! (i mod 4) = b ! i" by simp
  show ?thesis
    by (simp only: row and_then.simps getitem_nat[OF len] cell)
qed

lemma list_index_Inr:
  "list_index xs v = Inr i \<Longrightarrow>
     0 \<le> i \<and> nat i < length xs \<and> xs ! nat i = v \<and> (\<forall>j < nat i. xs ! j \<noteq> v)"
proof (induction xs arbitrary: i)
  case Nil
  then show ?case by simp
next
  case (Cons x xs)
  show ?case
  proof (cases "x = v")
    case True
    with Cons.prems show ?thesis by simp
  next
    case False
    with Cons.prems obtain i' where i': "list_index xs v = Inr i'" "i = i' + 1"
      by (cases "list_index xs v") auto
    from Cons.IH[OF i'(1)] have ih: "0 \<le> i'" "nat i' < length xs" "xs ! nat i' = v"
      "\<forall>j < nat i'. xs ! j \<noteq> v" by auto
    have n: "nat i = Suc (nat i')" using ih(1) i'(2) by simp
    show ?thesis using ih False i'(2) n by (auto simp: nth_Cons split: nat.splits)
  qed
qed

lemma list_index_Inl: "list_index xs v = Inl e \<Longrightarrow> v \<notin> set xs"
  by (induction xs) (auto split: if_splits sum.splits elim: and_then.elims)

lemma list_index_mem: "v \<in> set xs \<Longrightarrow> \<exists>i. list_index xs v = Inr i"
  using list_index_Inl by (cases "list_index xs v") auto

lemma cells: "List.product range4 range4 = map cell_of [0 ..< 16]"
  by (simp add: range4_def cell_of_def upt_rec)

lemma find_scan_drop:
  assumes "length b = 16"
  shows "k \<le> 16 \<Longrightarrow> find_scan (to_2d_array b) v (map cell_of [k ..< 16]) =
    (case list_index (drop k b) v of
       Inl e \<Rightarrow> Inr None
     | Inr i \<Rightarrow> Inr (Some (cell_of (k + nat i))))"
proof (induction "16 - k" arbitrary: k)
  case 0
  then show ?case using assms by simp
next
  case (Suc n)
  then have k: "k < 16" by simp
  have upt: "[k ..< 16] = k # [Suc k ..< 16]" using k by (simp add: upt_rec)
  have dr: "drop k b = b ! k # drop (Suc k) b" using k assms by (simp add: Cons_nth_drop_Suc)
  have IH: "find_scan (to_2d_array b) v (map cell_of [Suc k ..< 16]) =
    (case list_index (drop (Suc k) b) v of
       Inl e \<Rightarrow> Inr None
     | Inr i \<Rightarrow> Inr (Some (cell_of (Suc k + nat i))))"
    using Suc by simp
  show ?case
    apply (simp only: upt dr list.map)
    apply (simp only: cell_of_def[of k] find_scan.simps cell_to_2d_array[OF assms k])
    apply (auto simp: IH cell_of_def nat_add_distrib dest!: list_index_Inr split: sum.splits)
    done
qed

lemma find_val_board:
  assumes "length b = 16"
  shows "find_val (to_2d_array b) v =
    (case list_index b v of
       Inl e \<Rightarrow> Inr None
     | Inr i \<Rightarrow> Inr (Some (i div 4, i mod 4)))"
proof -
  have "find_val (to_2d_array b) v =
    (case list_index b v of
       Inl e \<Rightarrow> Inr None
     | Inr i \<Rightarrow> Inr (Some (cell_of (nat i))))"
    using find_scan_drop[OF assms, of 0 v] by (simp add: find_val_def cells split: sum.splits)
  then show ?thesis
    by (auto simp: cell_of_def zdiv_int zmod_int dest!: list_index_Inr split: sum.splits)
qed

section \<open>The heuristics\<close>

lemma val_multiplier_spec:
  "0 \<le> v \<Longrightarrow> v \<le> 15 \<Longrightarrow> val_multiplier v = Some (spec_tile_weight v)"
  by (auto simp: val_multiplier_def spec_tile_weight_def)

lemma is_not_small: "0 \<le> a \<Longrightarrow> a \<le> 15 \<Longrightarrow> is_not a b = (a \<noteq> b)"
  by (simp add: is_not_def small_int_def)

lemma h1_loop_sum:
  "k + length xs \<le> length goal \<Longrightarrow> \<forall>v \<in> set xs. 0 \<le> v \<and> v \<le> 15 \<Longrightarrow>
   h1_loop xs goal (int k) count =
     Inr (count + (\<Sum>i \<leftarrow> [0 ..< length xs].
            if xs ! i \<noteq> goal ! (k + i) then spec_tile_weight (xs ! i) else 0))"
proof (induction xs arbitrary: k count)
  case Nil
  then show ?case by simp
next
  case (Cons x xs)
  have g: "getitem goal (int k) = Inr (goal ! k)"
    using Cons.prems by (simp add: getitem_nat)
  have x: "0 \<le> x" "x \<le> 15" using Cons.prems by auto
  have IH: "\<And>c. h1_loop xs goal (int (Suc k)) c =
     Inr (c + (\<Sum>i \<leftarrow> [0 ..< length xs].
            if xs ! i \<noteq> goal ! (Suc k + i) then spec_tile_weight (xs ! i) else 0))"
    using Cons.prems by (intro Cons.IH) auto
  have k1: "int k + 1 = int (Suc k)" by simp
  have shift: "[0 ..< length (x # xs)] = 0 # map Suc [0 ..< length xs]"
    by (simp add: upt_conv_Cons map_Suc_upt del: upt_Suc)
  show ?case
    by (simp only: h1_loop.simps g and_then.simps is_not_small[OF x] val_multiplier_spec[OF x]
          option.case k1 IH shift)
       (simp add: comp_def cong: if_cong)
qed

lemma h1_value:
  assumes "length B = 16" "length G = 16" "\<forall>v \<in> set B. 0 \<le> v \<and> v \<le> 15"
    and "board_state_1d g = G"
  shows "estimated_cost_to_goal_h1 B (Some g) =
     Inr ((\<Sum>i \<leftarrow> [0 ..< 16]. if B ! i \<noteq> G ! i then spec_tile_weight (B ! i) else 0) - 1)"
  using h1_loop_sum[of 0 B G 0] assms by (simp add: estimated_cost_to_goal_h1_def)

lemma list_index_distinct:
  assumes "distinct xs" "i < length xs"
  shows "list_index xs (xs ! i) = Inr (int i)"
proof -
  have "xs ! i \<in> set xs" using assms by simp
  then obtain j where j: "list_index xs (xs ! i) = Inr j"
    using list_index_mem by blast
  from list_index_Inr[OF j] have "0 \<le> j" "nat j < length xs" "xs ! nat j = xs ! i" by auto
  then have "nat j = i" using assms by (simp add: nth_eq_iff_index_eq)
  with \<open>0 \<le> j\<close> j show ?thesis by auto
qed

lemma find_val_at:
  assumes "distinct b" "length b = 16" "i < 16"
  shows "find_val (to_2d_array b) (b ! i) = Inr (Some (cell_of i))"
  using assms by (simp add: find_val_board list_index_distinct cell_of_def zdiv_int zmod_int)

lemma h2_loop_sum:
  assumes B: "distinct B" "length B = 16" and G: "distinct G" "length G = 16"
  shows "\<forall>p \<in> set ps. 0 \<le> p \<and> p \<le> 15 \<and> pb p < 16 \<and> B ! pb p = p \<and> pg p < 16 \<and> G ! pg p = p \<Longrightarrow>
   h2_loop (to_2d_array B) (to_2d_array G) ps tot =
     Inr (tot + (\<Sum>p \<leftarrow> ps. spec_tile_weight p *
            (\<bar>int (pg p div 4) - int (pb p div 4)\<bar> + \<bar>int (pg p mod 4) - int (pb p mod 4)\<bar>)))"
proof (induction ps arbitrary: tot)
  case Nil
  then show ?case by simp
next
  case (Cons p ps)
  then have p: "0 \<le> p" "p \<le> 15" "pb p < 16" "B ! pb p = p" "pg p < 16" "G ! pg p = p"
    by auto
  have fb: "unpack (find_val (to_2d_array B) p) = Inr (cell_of (pb p))"
    using find_val_at[OF B p(3)] p(4) by (simp add: unpack_def)
  have fg: "unpack (find_val (to_2d_array G) p) = Inr (cell_of (pg p))"
    using find_val_at[OF G p(5)] p(6) by (simp add: unpack_def)
  have IH: "\<And>t. h2_loop (to_2d_array B) (to_2d_array G) ps t =
     Inr (t + (\<Sum>p \<leftarrow> ps. spec_tile_weight p *
            (\<bar>int (pg p div 4) - int (pb p div 4)\<bar> + \<bar>int (pg p mod 4) - int (pb p mod 4)\<bar>)))"
    using Cons.prems by (intro Cons.IH) auto
  show ?case
    by (simp add: fb fg cell_of_def val_multiplier_spec[OF p(1,2)] IH)
qed

lemma goal_node_new: "new_PuzzleState 0 goal_board None None 0 0 = Inr goal_node"
  by (simp add: new_PuzzleState_def goal_node_def estimated_cost_to_goal_h1_def
      estimated_cost_to_goal_h2_def)

text \<open>
  Claim C2. For a board \<open>B\<close> and a goal \<open>G\<close> of 16 tiles each, the tiles of \<open>B\<close> in 0..15, h1
  is the sum, over the 16 positions where the tile of \<open>B\<close> differs from the tile of \<open>G\<close>, of
  the weight of the tile of \<open>B\<close>, minus 1; so h1 of the goal against itself is -1. With no
  goal set, h1 is 0 for any board.
\<close>

theorem h1_weighted_mismatch:
  assumes "length B = 16" "length G = 16" "\<forall>v \<in> set B. 0 \<le> v \<and> v \<le> 15"
    and "board_state_1d g = G"
  shows "estimated_cost_to_goal_h1 B (Some g) =
           Inr ((\<Sum>i \<leftarrow> [0 ..< 16]. if B ! i \<noteq> G ! i then spec_tile_weight (B ! i) else 0) - 1)
         \<and> (B = G \<longrightarrow> estimated_cost_to_goal_h1 B (Some g) = Inr (- 1))
         \<and> estimated_cost_to_goal_h1 board None = Inr 0"
proof -
  have v: "estimated_cost_to_goal_h1 B (Some g) =
     Inr ((\<Sum>i \<leftarrow> [0 ..< 16]. if B ! i \<noteq> G ! i then spec_tile_weight (B ! i) else 0) - 1)"
    using assms by (rule h1_value)
  have "B = G \<Longrightarrow> estimated_cost_to_goal_h1 B (Some g) = Inr (- 1)"
    unfolding v by simp
  moreover have "estimated_cost_to_goal_h1 board None = Inr 0"
    by (simp add: estimated_cost_to_goal_h1_def)
  ultimately show ?thesis using v by blast
qed

theorem h1_weighted_mismatch_witness:
  "length start_board1 = 16 \<and> length goal_board = 16
   \<and> list_all (\<lambda>v. 0 \<le> v \<and> v \<le> 15) start_board1
   \<and> estimated_cost_to_goal_h1 start_board1 (Some goal_node) = Inr 45
   \<and> estimated_cost_to_goal_h1 goal_board (Some goal_node) = Inr (- 1)
   \<and> estimated_cost_to_goal_h1 goal_board None = Inr 0"
proof -
  have a: "length start_board1 = 16" "length goal_board = 16"
    by (simp_all add: start_board1_def goal_board_def)
  have b: "\<forall>v \<in> set start_board1. 0 \<le> v \<and> v \<le> 15" by (simp add: start_board1_def)
  have c: "\<forall>v \<in> set goal_board. 0 \<le> v \<and> v \<le> 15" by (simp add: goal_board_def)
  have d: "board_state_1d goal_node = goal_board" by (simp add: goal_node_def)
  have s: "(\<Sum>i \<leftarrow> [0 ..< 16]. if start_board1 ! i \<noteq> goal_board ! i
              then spec_tile_weight (start_board1 ! i) else 0) = 46"
    by (simp add: start_board1_def goal_board_def spec_tile_weight_def upt_rec)
  show ?thesis
    using h1_weighted_mismatch[OF a b d, of goal_board]
      h1_weighted_mismatch[OF a(2) a(2) c d, of goal_board] a b
    by (simp add: s list_all_iff)
qed

lemma upto_1_15: "[1 .. 15] = [1, 2, 3, 4, 5, 6, 7, 8, 9, 10, 11, 12, 13, 14, 15 :: int]"
  by (simp add: upto_rec1)

text \<open>
  Claim C3. For boards \<open>B\<close> and \<open>G\<close> that are permutations of 0..15, with \<open>pb v\<close> and \<open>pg v\<close>
  the flat positions of tile \<open>v\<close> in \<open>B\<close> and in \<open>G\<close>, h2 is the sum over the tiles 1..15 of
  the tile's weight times the Manhattan distance between the two positions (rows are
  \<open>p div 4\<close>, columns \<open>p mod 4\<close>); so h2 of the goal against itself is 0.
\<close>

theorem h2_weighted_manhattan:
  assumes "is_board B" "is_board G" "board_state g = to_2d_array G"
    and "\<forall>v \<in> {1 .. 15}. pb v < 16 \<and> B ! pb v = v \<and> pg v < 16 \<and> G ! pg v = v"
  shows "estimated_cost_to_goal_h2 (to_2d_array B) (Some g) =
           Inr (\<Sum>v \<leftarrow> [1 .. 15]. spec_tile_weight v *
                  (\<bar>int (pg v div 4) - int (pb v div 4)\<bar> + \<bar>int (pg v mod 4) - int (pb v mod 4)\<bar>))
         \<and> (B = G \<longrightarrow> estimated_cost_to_goal_h2 (to_2d_array B) (Some g) = Inr 0)"
proof -
  have B: "distinct B" "length B = 16" and G: "distinct G" "length G = 16"
    using assms(1,2) is_board_length by (auto simp: is_board_def)
  have pos: "\<forall>p \<in> set [1 .. 15]. 0 \<le> p \<and> p \<le> 15 \<and> pb p < 16 \<and> B ! pb p = p \<and> pg p < 16 \<and> G ! pg p = p"
    using assms(4) by auto
  have v: "estimated_cost_to_goal_h2 (to_2d_array B) (Some g) =
           Inr (\<Sum>v \<leftarrow> [1 .. 15]. spec_tile_weight v *
                  (\<bar>int (pg v div 4) - int (pb v div 4)\<bar> + \<bar>int (pg v mod 4) - int (pb v mod 4)\<bar>))"
    using h2_loop_sum[OF B G pos, of 0] assms(3) by (simp add: estimated_cost_to_goal_h2_def)
  have "(\<Sum>v \<leftarrow> [1 .. 15]. spec_tile_weight v *
                  (\<bar>int (pg v div 4) - int (pb v div 4)\<bar> + \<bar>int (pg v mod 4) - int (pb v mod 4)\<bar>)) = 0"
    if "B = G"
  proof -
    have "pb v = pg v" if "v \<in> set [1 .. 15]" for v
    proof -
      from that assms(4) have "pb v < 16" "B ! pb v = v" "pg v < 16" "G ! pg v = v" by auto
      with \<open>B = G\<close> B show ?thesis by (metis nth_eq_iff_index_eq)
    qed
    then have "(\<Sum>v \<leftarrow> [1 .. 15]. spec_tile_weight v *
                  (\<bar>int (pg v div 4) - int (pb v div 4)\<bar> + \<bar>int (pg v mod 4) - int (pb v mod 4)\<bar>))
        = (\<Sum>v \<leftarrow> [1 .. 15]. 0)"
      by (intro arg_cong[where f = sum_list] map_cong) auto
    then show ?thesis by simp
  qed
  then have "B = G \<longrightarrow> estimated_cost_to_goal_h2 (to_2d_array B) (Some g) = Inr 0"
    unfolding v by blast
  with v show ?thesis by blast
qed

theorem h2_weighted_manhattan_witness:
  "is_board start_board1 \<and> is_board goal_board
   \<and> estimated_cost_to_goal_h2 (to_2d_array start_board1) (Some goal_node) = Inr 47
   \<and> estimated_cost_to_goal_h2 (to_2d_array goal_board) (Some goal_node) = Inr 0"
proof -
  define pg :: "int \<Rightarrow> nat" where "pg = (\<lambda>v. nat (v - 1))"
  define pb :: "int \<Rightarrow> nat"
    where "pb = (\<lambda>v. [12, 1, 4, 2, 3, 0, 6, 10, 7, 9, 5, 14, 11, 8, 13, 15] ! nat v)"
  have a: "is_board start_board1" "is_board goal_board"
    by (simp_all add: is_board_check start_board1_def goal_board_def)
  have g: "board_state goal_node = to_2d_array goal_board" by (simp add: goal_node_def)
  have "\<forall>v \<in> set [1 .. 15]. pb v < 16 \<and> start_board1 ! pb v = v \<and> pg v < 16 \<and> goal_board ! pg v = v"
    unfolding upto_1_15 by (simp add: pb_def pg_def start_board1_def goal_board_def)
  then have p: "\<forall>v \<in> {1 .. 15}. pb v < 16 \<and> start_board1 ! pb v = v \<and> pg v < 16 \<and> goal_board ! pg v = v"
    by simp
  have "\<forall>v \<in> set [1 .. 15]. pg v < 16 \<and> goal_board ! pg v = v \<and> pg v < 16 \<and> goal_board ! pg v = v"
    unfolding upto_1_15 by (simp add: pg_def goal_board_def)
  then have q: "\<forall>v \<in> {1 .. 15}. pg v < 16 \<and> goal_board ! pg v = v \<and> pg v < 16 \<and> goal_board ! pg v = v"
    by simp
  have s: "(\<Sum>v \<leftarrow> [1 .. 15]. spec_tile_weight v *
             (\<bar>int (pg v div 4) - int (pb v div 4)\<bar> + \<bar>int (pg v mod 4) - int (pb v mod 4)\<bar>)) = 47"
    unfolding upto_1_15 by (simp add: pb_def pg_def spec_tile_weight_def)
  show ?thesis
    using h2_weighted_manhattan[OF a g p] h2_weighted_manhattan[OF a(2) a(2) g q] a
    by (simp add: s)
qed

section \<open>Lookup on permutation boards\<close>

lemma is_board_distinct: "is_board b \<Longrightarrow> distinct b"
  by (simp add: is_board_def)

lemma is_board_mem: "is_board b \<Longrightarrow> v \<in> set b \<longleftrightarrow> 0 \<le> v \<and> v \<le> 15"
  by (auto simp: is_board_def)

lemma is_board_nth: "is_board b \<Longrightarrow> i < 16 \<Longrightarrow> 0 \<le> b ! i \<and> b ! i \<le> 15"
  using is_board_mem[of b "b ! i"] is_board_length[of b] by simp

lemma is_board_index:
  assumes "is_board b" "0 \<le> v" "v \<le> 15"
  shows "\<exists>i < 16. list_index b v = Inr (int i) \<and> b ! i = v"
proof -
  have "v \<in> set b" using assms by (simp add: is_board_mem)
  then obtain j where j: "list_index b v = Inr j" using list_index_mem by blast
  from list_index_Inr[OF j] is_board_length[OF assms(1)]
  have "nat j < 16" "list_index b v = Inr (int (nat j))" "b ! nat j = v" using j by auto
  then show ?thesis by blast
qed

text \<open>
  Claim C9. On a board that is a permutation of 0..15, looking up a value in 0..15 returns
  a position (row, col) with both coordinates in 0..3, and the board holds the value there
  (in the 2D view and at flat position 4 * row + col); the lookup does not raise and does
  not return None.
\<close>

theorem find_returns_position:
  assumes "is_board b" "0 \<le> v" "v \<le> 15"
  shows "\<exists>row col. find_val (to_2d_array b) v = Inr (Some (row, col))
           \<and> 0 \<le> row \<and> row \<le> 3 \<and> 0 \<le> col \<and> col \<le> 3
           \<and> to_2d_array b ! nat row ! nat col = v \<and> b ! nat (4 * row + col) = v"
proof -
  from is_board_index[OF assms] obtain i where i: "i < 16" "list_index b v = Inr (int i)" "b ! i = v"
    by blast
  have len: "length b = 16" using assms(1) by (rule is_board_length)
  have f: "find_val (to_2d_array b) v = Inr (Some (int (i div 4), int (i mod 4)))"
    using i by (simp add: find_val_board[OF len] zdiv_int zmod_int)
  have r: "i div 4 < 4" using i(1) by simp
  have "i div 4 * 4 + i mod 4 = i" by simp
  then have c: "i mod 4 < 16 - i div 4 * 4" using i(1) by arith
  have cell: "to_2d_array b ! (i div 4) ! (i mod 4) = b ! (i div 4 * 4 + i mod 4)"
    using len r c by (simp add: nth_to_2d_array)
  have flat: "nat (4 * int (i div 4) + int (i mod 4)) = i"
    by (simp add: nat_add_distrib nat_mult_distrib)
  show ?thesis
    apply (rule exI[of _ "int (i div 4)"], rule exI[of _ "int (i mod 4)"])
    using f r cell i(3) flat by simp
qed

theorem find_returns_position_witness:
  "is_board start_board1 \<and> find_val (to_2d_array start_board1) 7 = Inr (Some (2, 2))
   \<and> to_2d_array start_board1 ! 2 ! 2 = 7 \<and> start_board1 ! 10 = 7"
  using find_returns_position[of start_board1 7]
  by (simp add: is_board_check start_board1_def find_val_def to_2d_array_def range4_def
      getitem_def norm_index_def upt_rec)

lemma spec_tile_weight_nonneg: "0 \<le> spec_tile_weight v"
  by (simp add: spec_tile_weight_def)

lemma spec_tile_weight_pos: "v \<noteq> 0 \<Longrightarrow> 1 \<le> spec_tile_weight v"
  by (simp add: spec_tile_weight_def)

lemma boards_differ_at_tile:
  assumes B: "is_board B" and G: "is_board G" and ne: "B \<noteq> G"
  shows "\<exists>j < 16. B ! j \<noteq> G ! j \<and> B ! j \<noteq> 0"
proof -
  have lB: "length B = 16" and lG: "length G = 16"
    using B G by (simp_all add: is_board_length)
  from ne lB lG obtain i where i: "i < 16" "B ! i \<noteq> G ! i"
    by (auto simp: list_eq_iff_nth_eq)
  show ?thesis
  proof (cases "B ! i = 0")
    case False
    with i show ?thesis by blast
  next
    case True
    with i have gi: "G ! i \<noteq> 0" by simp
    have "0 \<le> G ! i \<and> G ! i \<le> 15" using G i(1) by (rule is_board_nth)
    then obtain j where j: "j < 16" "B ! j = G ! i"
      using is_board_index[OF B, of "G ! i"] by auto
    have "j \<noteq> i" using j(2) i(2) by auto
    then have "G ! j \<noteq> G ! i"
      using is_board_distinct[OF G] lG i(1) j(1) by (simp add: nth_eq_iff_index_eq)
    with j gi show ?thesis by auto
  qed
qed

text \<open>
  Claim C10. For boards \<open>B\<close> and \<open>G\<close> that are permutations of 0..15, h1 returns a value; it
  is at least 0 when \<open>B\<close> differs from \<open>G\<close>, and it is -1 exactly when \<open>B = G\<close>.
\<close>

theorem h1_nonneg_off_goal:
  assumes "is_board B" "is_board G" "board_state_1d g = G"
  shows "\<exists>h. estimated_cost_to_goal_h1 B (Some g) = Inr h
           \<and> (B \<noteq> G \<longrightarrow> 0 \<le> h) \<and> (h = - 1 \<longleftrightarrow> B = G)"
proof -
  define f where "f = (\<lambda>i. if B ! i \<noteq> G ! i then spec_tile_weight (B ! i) else 0)"
  define S where "S = (\<Sum>i \<leftarrow> [0 ..< 16]. f i)"
  have lB: "length B = 16" and lG: "length G = 16"
    using assms by (simp_all add: is_board_length)
  have rng: "\<forall>v \<in> set B. 0 \<le> v \<and> v \<le> 15"
    using assms(1) by (simp add: is_board_mem)
  have h: "estimated_cost_to_goal_h1 B (Some g) = Inr (S - 1)"
    unfolding S_def f_def using lB lG rng assms(3) by (rule h1_value)
  have Sset: "S = sum f {0 ..< 16}"
    unfolding S_def by (simp add: interv_sum_list_conv_sum_set_nat)
  have nonneg: "0 \<le> f i" for i
    by (simp add: f_def spec_tile_weight_nonneg)
  have eq: "S = 0" if "B = G"
    using that unfolding Sset f_def by simp
  have pos: "1 \<le> S" if "B \<noteq> G"
  proof -
    from boards_differ_at_tile[OF assms(1,2) that]
    obtain j where j: "j < 16" "B ! j \<noteq> G ! j" "B ! j \<noteq> 0" by blast
    have "1 \<le> f j" using j by (simp add: f_def spec_tile_weight_pos)
    also have "f j \<le> sum f {0 ..< 16}"
      using j(1) nonneg by (intro member_le_sum) auto
    finally show ?thesis by (simp add: Sset)
  qed
  show ?thesis
  proof (cases "B = G")
    case True
    with h eq show ?thesis by simp
  next
    case False
    with h pos[OF False] show ?thesis by simp
  qed
qed

theorem h1_nonneg_off_goal_witness:
  "is_board start_board1 \<and> is_board goal_board \<and> start_board1 \<noteq> goal_board
   \<and> estimated_cost_to_goal_h1 start_board1 (Some goal_node) = Inr 45
   \<and> estimated_cost_to_goal_h1 goal_board (Some goal_node) = Inr (- 1)"
proof -
  have a: "is_board start_board1" "is_board goal_board"
    by (simp_all add: is_board_check start_board1_def goal_board_def)
  have d: "board_state_1d goal_node = goal_board" by (simp add: goal_node_def)
  have v: "estimated_cost_to_goal_h1 start_board1 (Some goal_node) = Inr 45"
    by (simp add: estimated_cost_to_goal_h1_def goal_node_def start_board1_def goal_board_def
        getitem_def norm_index_def is_not_def small_int_def val_multiplier_def)
  have ne: "start_board1 \<noteq> goal_board" by (simp add: start_board1_def goal_board_def)
  show ?thesis
    using h1_nonneg_off_goal[OF a d] h1_nonneg_off_goal[OF a(2) a(2) d] a v ne by auto
qed

section \<open>Moves and expansion\<close>

lemma move_step:
  assumes "board_state_1d n = b" "list_index b 0 = Inr (int z)" "z < length b" "t < length b"
    and "dirs d = Some delta" "int z + delta = int t" "1 \<le> b ! t" "b ! t \<le> 15"
  shows "move ident n d =
     new_PuzzleState ident (b[z := b ! t, t := b ! z]) (goal_puzzle_state n) (Some (id_no n))
       (depth n + 1) (g_of_n n + (if b ! t < 10 then 1 else 10))"
proof -
  have c: "move_cost b (int t) = Inr (Some (if b ! t < 10 then 1 else 10))"
    using assms by (simp add: move_cost_def getitem_nat)
  show ?thesis
    using assms(1-6) by (simp add: move_def c getitem_nat setitem_nat Let_def)
qed

lemma valid_moves_target:
  assumes "d \<in> set (valid_moves (int (z div 4)) (int (z mod 4)))" "z < 16"
  shows "\<exists>delta t. dirs d = Some delta \<and> int z + delta = int t \<and> t < 16 \<and> t \<noteq> z"
proof -
  have "i div 4 < 3 \<Longrightarrow> i + 4 < 16" for i :: nat by arith
  have up: "0 < z div 4 \<Longrightarrow> int z + (- 4) = int (z - 4) \<and> z - 4 < 16 \<and> z - 4 \<noteq> z"
    using assms(2) by auto
  have down: "z div 4 < 3 \<Longrightarrow> int z + 4 = int (z + 4) \<and> z + 4 < 16 \<and> z + 4 \<noteq> z"
    by auto
  have left: "0 < z mod 4 \<Longrightarrow> int z + (- 1) = int (z - 1) \<and> z - 1 < 16 \<and> z - 1 \<noteq> z"
    using assms(2) by (cases z) auto
  have right: "z mod 4 < 3 \<Longrightarrow> int z + 1 = int (z + 1) \<and> z + 1 < 16 \<and> z + 1 \<noteq> z"
    using assms(2) by (auto, arith)
  from assms(1) consider "d = ''up''" "0 < z div 4" | "d = ''down''" "z div 4 < 3"
    | "d = ''left''" "0 < z mod 4" | "d = ''right''" "z mod 4 < 3"
    by (auto simp: valid_moves_def split: if_splits)
  then show ?thesis
  proof cases
    case 1
    then show ?thesis using up by (intro exI[of _ "- 4"] exI[of _ "z - 4"]) (simp add: dirs_def)
  next
    case 2
    then show ?thesis using down by (intro exI[of _ "4"] exI[of _ "z + 4"]) (simp add: dirs_def)
  next
    case 3
    then show ?thesis using left by (intro exI[of _ "- 1"] exI[of _ "z - 1"]) (simp add: dirs_def)
  next
    case 4
    then show ?thesis using right by (intro exI[of _ "1"] exI[of _ "z + 1"]) (simp add: dirs_def)
  qed
qed

lemma is_board_swap:
  assumes "is_board b" "z < 16" "t < 16"
  shows "is_board (b[z := b ! t, t := b ! z])"
  using assms is_board_length[OF assms(1)] by (simp add: is_board_def)

lemma board_positions:
  assumes "is_board B"
  shows "\<exists>pb. \<forall>v \<in> set [1 .. 15]. pb v < 16 \<and> B ! pb v = v"
proof -
  have "\<exists>p. p < 16 \<and> B ! p = v" if "v \<in> set [1 .. 15]" for v
  proof -
    from that have "0 \<le> v" "v \<le> 15" by auto
    from is_board_index[OF assms this] show ?thesis by blast
  qed
  then have "\<forall>v \<in> set [1 .. 15]. \<exists>p. p < 16 \<and> B ! p = v" by blast
  then show ?thesis by (rule bchoice)
qed

lemma h2_defined:
  assumes "is_board B" "is_board G" "board_state g = to_2d_array G"
  shows "\<exists>h. estimated_cost_to_goal_h2 (to_2d_array B) (Some g) = Inr h"
proof -
  obtain pb pg where pb: "\<forall>v \<in> set [1 .. 15]. pb v < 16 \<and> B ! pb v = v"
    and pg: "\<forall>v \<in> set [1 .. 15]. pg v < 16 \<and> G ! pg v = v"
    using board_positions[OF assms(1)] board_positions[OF assms(2)] by blast
  have B: "distinct B" "length B = 16" and G: "distinct G" "length G = 16"
    using assms(1,2) is_board_length by (auto simp: is_board_def)
  have "\<forall>p \<in> set [1 .. 15]. 0 \<le> p \<and> p \<le> 15 \<and> pb p < 16 \<and> B ! pb p = p \<and> pg p < 16 \<and> G ! pg p = p"
    using pb pg by auto
  from h2_loop_sum[OF B G this, of 0] show ?thesis
    using assms(3) by (simp add: estimated_cost_to_goal_h2_def)
qed

lemma h1_defined:
  assumes "is_board B" "is_board G" "board_state_1d g = G"
  shows "\<exists>h. estimated_cost_to_goal_h1 B (Some g) = Inr h"
proof -
  have "\<forall>v \<in> set B. 0 \<le> v \<and> v \<le> 15" using assms(1) by (simp add: is_board_mem)
  from h1_value[OF is_board_length[OF assms(1)] is_board_length[OF assms(2)] this assms(3)]
  show ?thesis by blast
qed

lemma new_PuzzleState_defined:
  assumes "is_board b" "goal_ok goal"
  shows "\<exists>h1 h2. new_PuzzleState ident b goal parent dep cost =
     Inr (PuzzleState parent ident b (to_2d_array b) goal h1 h2 cost (cost + h1) (cost + h2) dep)"
proof (cases goal)
  case None
  then show ?thesis
    by (simp add: new_PuzzleState_def estimated_cost_to_goal_h1_def estimated_cost_to_goal_h2_def)
next
  case (Some g)
  with assms(2) have g: "is_board (board_state_1d g)" "board_state g = to_2d_array (board_state_1d g)"
    by (simp_all add: goal_ok_def)
  from h1_defined[OF assms(1) g(1) refl] obtain h1
    where h1: "estimated_cost_to_goal_h1 b (Some g) = Inr h1" by blast
  from h2_defined[OF assms(1) g] obtain h2
    where h2: "estimated_cost_to_goal_h2 (to_2d_array b) (Some g) = Inr h2" by blast
  show ?thesis using Some h1 h2 by (simp add: new_PuzzleState_def)
qed

lemma is_board_blank:
  assumes "is_board b"
  shows "\<exists>z < 16. list_index b 0 = Inr (int z) \<and> b ! z = 0"
  using is_board_index[OF assms, of 0] by simp

lemma move_valid:
  assumes wf: "is_board (board_state_1d n)" "goal_ok (goal_puzzle_state n)"
    and z: "z < 16" "board_state_1d n ! z = 0"
    and d: "d \<in> set (valid_moves (int (z div 4)) (int (z mod 4)))"
  shows "\<exists>delta t s. dirs d = Some delta \<and> int z + delta = int t \<and> t < 16 \<and> t \<noteq> z
    \<and> move ident n d = Inr s
    \<and> board_state_1d s = (board_state_1d n)[z := board_state_1d n ! t, t := 0]
    \<and> 1 \<le> board_state_1d n ! t \<and> board_state_1d n ! t \<le> 15
    \<and> g_of_n s = g_of_n n + (if board_state_1d n ! t < 10 then 1 else 10)
    \<and> depth s = depth n + 1 \<and> parent_id s = Some (id_no n) \<and> id_no s = ident
    \<and> goal_puzzle_state s = goal_puzzle_state n
    \<and> board_state s = to_2d_array (board_state_1d s) \<and> is_board (board_state_1d s)"
proof -
  define b where "b = board_state_1d n"
  have len: "length b = 16" using wf(1) by (simp add: b_def is_board_length)
  have zi: "list_index b 0 = Inr (int z)"
    using list_index_distinct[of b z] is_board_distinct[OF wf(1)] z len by (simp add: b_def)
  from valid_moves_target[OF d z(1)] obtain delta t
    where t: "dirs d = Some delta" "int z + delta = int t" "t < 16" "t \<noteq> z" by blast
  have "b ! t \<noteq> b ! z"
    using is_board_distinct[OF wf(1)] len t(3,4) z(1) by (simp add: b_def nth_eq_iff_index_eq)
  then have "b ! t \<noteq> 0" using z(2) by (simp add: b_def)
  moreover have "0 \<le> b ! t \<and> b ! t \<le> 15"
    using is_board_nth[OF wf(1) t(3)] by (simp add: b_def)
  ultimately have tile: "1 \<le> b ! t" "b ! t \<le> 15" by auto
  have mv: "move ident n d =
     new_PuzzleState ident (b[z := b ! t, t := b ! z]) (goal_puzzle_state n) (Some (id_no n))
       (depth n + 1) (g_of_n n + (if b ! t < 10 then 1 else 10))"
    using b_def[symmetric] zi _ _ t(1,2) tile by (rule move_step) (simp_all add: len z t)
  have nb: "is_board (b[z := b ! t, t := b ! z])"
    using wf(1) z(1) t(3) unfolding b_def by (rule is_board_swap)
  from new_PuzzleState_defined[OF nb wf(2)] obtain h1 h2 where
    "new_PuzzleState ident (b[z := b ! t, t := b ! z]) (goal_puzzle_state n) (Some (id_no n))
       (depth n + 1) (g_of_n n + (if b ! t < 10 then 1 else 10)) =
     Inr (PuzzleState (Some (id_no n)) ident (b[z := b ! t, t := b ! z])
       (to_2d_array (b[z := b ! t, t := b ! z])) (goal_puzzle_state n) h1 h2
       (g_of_n n + (if b ! t < 10 then 1 else 10))
       (g_of_n n + (if b ! t < 10 then 1 else 10) + h1)
       (g_of_n n + (if b ! t < 10 then 1 else 10) + h2) (depth n + 1))"
    by blast
  with mv nb t tile z(2) show ?thesis
    unfolding b_def[symmetric] by (intro exI[of _ delta] exI[of _ t]) (simp add: b_def)
qed

lemma map_move_defined:
  "(\<And>d i. d \<in> set ds \<Longrightarrow> \<exists>s. move i n d = Inr s) \<Longrightarrow>
   \<exists>ss. map_move ids k n ds = Inr ss \<and> length ss = length ds
     \<and> (\<forall>j < length ds. move (ids (k + j)) n (ds ! j) = Inr (ss ! j))"
proof (induction ds arbitrary: k)
  case Nil
  then show ?case by simp
next
  case (Cons d ds)
  from Cons.prems[of d "ids k"] obtain s where s: "move (ids k) n d = Inr s" by auto
  from Cons.IH[of "Suc k"] Cons.prems obtain ss where
    ss: "map_move ids (Suc k) n ds = Inr ss" "length ss = length ds"
      "\<forall>j < length ds. move (ids (Suc k + j)) n (ds ! j) = Inr (ss ! j)"
    by auto
  have "\<forall>j < length (d # ds). move (ids (k + j)) n ((d # ds) ! j) = Inr ((s # ss) ! j)"
    using s ss(3) by (auto simp: nth_Cons split: nat.splits)
  then show ?case using s ss(1,2) by simp
qed

lemma expand_blank:
  assumes "wf_node n" "z < 16" "board_state_1d n ! z = 0"
  shows "expand ids k n = map_move ids k n (valid_moves (int (z div 4)) (int (z mod 4)))"
proof -
  have b: "is_board (board_state_1d n)" "board_state n = to_2d_array (board_state_1d n)"
    using assms(1) by (simp_all add: wf_node_def)
  have "find_val (board_state n) 0 = Inr (Some (cell_of z))"
    using find_val_at[OF is_board_distinct[OF b(1)] is_board_length[OF b(1)] assms(2)]
      assms(3) b(2) by simp
  then show ?thesis by (simp add: expand_def unpack_def cell_of_def)
qed

lemma expand_valid:
  assumes "wf_node n" "z < 16" "board_state_1d n ! z = 0"
  shows "\<exists>ss. expand ids k n = Inr ss
    \<and> length ss = length (valid_moves (int (z div 4)) (int (z mod 4)))
    \<and> (\<forall>j < length ss.
          succ_of n z (ids (k + j)) (valid_moves (int (z div 4)) (int (z mod 4)) ! j) (ss ! j))"
proof -
  define ds where "ds = valid_moves (int (z div 4)) (int (z mod 4))"
  have wf: "is_board (board_state_1d n)" "goal_ok (goal_puzzle_state n)"
    using assms(1) by (simp_all add: wf_node_def)
  have mv: "\<exists>s. succ_of n z i d s" if "d \<in> set ds" for d i
    using move_valid[OF wf assms(2,3) that[unfolded ds_def], of i]
    unfolding succ_of_def by blast
  then have "\<exists>s. move i n d = Inr s" if "d \<in> set ds" for d i
    using that unfolding succ_of_def by blast
  from map_move_defined[of ds n ids k, OF this] obtain ss where
    ss: "map_move ids k n ds = Inr ss" "length ss = length ds"
      "\<forall>j < length ds. move (ids (k + j)) n (ds ! j) = Inr (ss ! j)" by blast
  have "succ_of n z (ids (k + j)) (ds ! j) (ss ! j)" if "j < length ss" for j
  proof -
    from that ss(2) have "ds ! j \<in> set ds" by simp
    from mv[OF this, of "ids (k + j)"] obtain s where s: "succ_of n z (ids (k + j)) (ds ! j) s"
      by blast
    then have "move (ids (k + j)) n (ds ! j) = Inr s" unfolding succ_of_def by blast
    with ss(3) that ss(2) have "s = ss ! j" by simp
    with s show ?thesis by simp
  qed
  then show ?thesis
    using ss(1,2) expand_blank[OF assms, of ids k] unfolding ds_def by simp
qed

lemma target_cell:
  assumes "d \<in> set (valid_moves (int (z div 4)) (int (z mod 4)))"
    and "dirs d = Some delta" "int z + delta = int t"
  shows "cell_of t =
     (int (z div 4) + (if d = ''up'' then - 1 else if d = ''down'' then 1 else 0),
      int (z mod 4) + (if d = ''left'' then - 1 else if d = ''right'' then 1 else 0))"
proof -
  from assms(1) consider "d = ''up''" "0 < z div 4" | "d = ''down''" "z div 4 < 3"
    | "d = ''left''" "0 < z mod 4" | "d = ''right''" "z mod 4 < 3"
    by (auto simp: valid_moves_def split: if_splits)
  then show ?thesis
  proof cases
    case 1
    with assms(2,3) have t: "t = z - 4" "4 \<le> z" by (auto simp: dirs_def)
    then have "t div 4 = z div 4 - 1" "t mod 4 = z mod 4"
      by (simp_all add: le_mod_geq)
    with 1 show ?thesis by (simp add: cell_of_def of_nat_diff)
  next
    case 2
    with assms(2,3) have t: "t = z + 4" by (auto simp: dirs_def)
    with 2 show ?thesis by (simp add: cell_of_def)
  next
    case 3
    with assms(2,3) have t: "z = t + 1" by (auto simp: dirs_def)
    have "t div 4 = z div 4" "t mod 4 = z mod 4 - 1"
      using 3(2) unfolding t by (simp_all add: div_Suc mod_Suc split: if_splits)
    with 3 show ?thesis by (simp add: cell_of_def of_nat_diff)
  next
    case 4
    with assms(2,3) have t: "t = z + 1" by (auto simp: dirs_def)
    have "t div 4 = z div 4" "t mod 4 = z mod 4 + 1"
      using 4(2) unfolding t by (simp_all add: div_Suc mod_Suc split: if_splits)
    with 4 show ?thesis by (simp add: cell_of_def)
  qed
qed

lemma succ_of_blank:
  assumes "succ_of n z ident d s" "d \<in> set (valid_moves (int (z div 4)) (int (z mod 4)))"
  shows "find_val (board_state s) 0 =
     Inr (Some (int (z div 4) + (if d = ''up'' then - 1 else if d = ''down'' then 1 else 0),
                int (z mod 4) + (if d = ''left'' then - 1 else if d = ''right'' then 1 else 0)))"
proof -
  from assms(1) obtain delta t where t: "dirs d = Some delta" "int z + delta = int t" "t < 16"
    and b: "board_state_1d s = (board_state_1d n)[z := board_state_1d n ! t, t := 0]"
      "board_state s = to_2d_array (board_state_1d s)" "is_board (board_state_1d s)"
    unfolding succ_of_def by blast
  have len: "length (board_state_1d s) = 16" using b(3) by (rule is_board_length)
  then have "board_state_1d s ! t = 0" using t(3) unfolding b(1) by simp
  with find_val_at[OF is_board_distinct[OF b(3)] len t(3)]
  have "find_val (board_state s) 0 = Inr (Some (cell_of t))" using b(2) by simp
  then show ?thesis using target_cell[OF assms(2) t(1,2)] by simp
qed

lemma grid_cell:
  assumes "length b = 16" "0 \<le> row" "row \<le> 3" "0 \<le> col" "col \<le> 3"
  shows "to_2d_array b ! nat row ! nat col = b ! nat (4 * row + col)"
    and "nat (4 * row + col) < 16"
    and "int (nat (4 * row + col) div 4) = row" and "int (nat (4 * row + col) mod 4) = col"
proof -
  have r: "nat row < 4" and c: "nat col < 4" using assms by auto
  have "to_2d_array b ! nat row ! nat col = b ! (nat row * 4 + nat col)"
    using assms(1) r c by (simp add: nth_to_2d_array)
  moreover have z: "nat (4 * row + col) = nat row * 4 + nat col"
    using assms by (simp add: nat_add_distrib nat_mult_distrib)
  ultimately show "to_2d_array b ! nat row ! nat col = b ! nat (4 * row + col)" by simp
  show "nat (4 * row + col) < 16" using assms by auto
  show "int (nat (4 * row + col) div 4) = row" unfolding z using assms c by simp
  show "int (nat (4 * row + col) mod 4) = col" unfolding z using assms c by simp
qed

lemma wf_node_blank:
  assumes "wf_node n" "0 \<le> row" "row \<le> 3" "0 \<le> col" "col \<le> 3"
    and "board_state n ! nat row ! nat col = 0"
  shows "board_state_1d n ! nat (4 * row + col) = 0"
proof -
  have "length (board_state_1d n) = 16" "board_state n = to_2d_array (board_state_1d n)"
    using assms(1) by (simp_all add: wf_node_def is_board_length)
  with grid_cell(1)[OF this(1) assms(2-5)] assms(6) show ?thesis by simp
qed

lemma wf_corner_node: "wf_node corner_node"
  by (simp add: wf_node_def corner_node_def goal_ok_def is_board_check corner_board_def)

text \<open>
  Claim C5. For a well-formed node with the blank at (row, col), the valid directions are
  up, down, left, right in this order, keeping up iff row > 0, down iff row < 3, left iff
  col > 0 and right iff col < 3. \<open>expand\<close> returns exactly one successor per valid
  direction, in that order: the \<open>j\<close>-th successor is the move in the \<open>j\<close>-th valid direction,
  and its blank is one cell further in that direction. With the blank at (0, 0) there are
  2 successors (down, right), with the blank at (1, 1) there are 4.
\<close>

theorem expand_one_successor_per_valid_direction:
  assumes "wf_node n" "0 \<le> row" "row \<le> 3" "0 \<le> col" "col \<le> 3"
    and "board_state n ! nat row ! nat col = 0"
  shows "valid_moves row col =
           filter (\<lambda>d. d = ''up'' \<and> row > 0 \<or> d = ''down'' \<and> row < 3
                     \<or> d = ''left'' \<and> col > 0 \<or> d = ''right'' \<and> col < 3)
             [''up'', ''down'', ''left'', ''right'']
    \<and> (\<exists>ss. expand ids k n = Inr ss \<and> length ss = length (valid_moves row col)
          \<and> (\<forall>j < length ss.
                move (ids (k + j)) n (valid_moves row col ! j) = Inr (ss ! j)
                \<and> find_val (board_state (ss ! j)) 0 =
                    Inr (Some (row + (if valid_moves row col ! j = ''up'' then - 1
                                      else if valid_moves row col ! j = ''down'' then 1 else 0),
                               col + (if valid_moves row col ! j = ''left'' then - 1
                                      else if valid_moves row col ! j = ''right'' then 1 else 0))))
          \<and> (row = 0 \<and> col = 0 \<longrightarrow> length ss = 2 \<and> valid_moves row col = [''down'', ''right''])
          \<and> (row = 1 \<and> col = 1 \<longrightarrow> length ss = 4))"
proof -
  define z where "z = nat (4 * row + col)"
  have len: "length (board_state_1d n) = 16"
    using assms(1) by (simp add: wf_node_def is_board_length)
  have z: "z < 16" "int (z div 4) = row" "int (z mod 4) = col"
    unfolding z_def using grid_cell(2-4)[OF len assms(2-5)] by simp_all
  have blank: "board_state_1d n ! z = 0"
    unfolding z_def using assms by (rule wf_node_blank)
  have dirs_list: "valid_moves row col =
           filter (\<lambda>d. d = ''up'' \<and> row > 0 \<or> d = ''down'' \<and> row < 3
                     \<or> d = ''left'' \<and> col > 0 \<or> d = ''right'' \<and> col < 3)
             [''up'', ''down'', ''left'', ''right'']"
    by (simp add: valid_moves_def)
  from expand_valid[OF assms(1) z(1) blank, of ids k] obtain ss where
    ss: "expand ids k n = Inr ss" "length ss = length (valid_moves row col)"
      "\<forall>j < length ss. succ_of n z (ids (k + j)) (valid_moves row col ! j) (ss ! j)"
    unfolding z(2,3) by blast
  have each: "move (ids (k + j)) n (valid_moves row col ! j) = Inr (ss ! j)
        \<and> find_val (board_state (ss ! j)) 0 =
            Inr (Some (row + (if valid_moves row col ! j = ''up'' then - 1
                              else if valid_moves row col ! j = ''down'' then 1 else 0),
                       col + (if valid_moves row col ! j = ''left'' then - 1
                              else if valid_moves row col ! j = ''right'' then 1 else 0)))"
    if j: "j < length ss" for j
  proof -
    have s: "succ_of n z (ids (k + j)) (valid_moves row col ! j) (ss ! j)"
      using ss(3) j by blast
    have mem: "valid_moves row col ! j \<in> set (valid_moves (int (z div 4)) (int (z mod 4)))"
      unfolding z(2,3) using j ss(2) by simp
    from s have "move (ids (k + j)) n (valid_moves row col ! j) = Inr (ss ! j)"
      unfolding succ_of_def by blast
    with succ_of_blank[OF s mem] show ?thesis unfolding z(2,3) by simp
  qed
  have corner: "length ss = 2 \<and> valid_moves row col = [''down'', ''right'']"
    if "row = 0 \<and> col = 0"
    using that ss(2) by (simp add: valid_moves_def)
  have inner: "length ss = 4" if "row = 1 \<and> col = 1"
    using that ss(2) by (simp add: valid_moves_def)
  from ss(1,2) each corner inner have "\<exists>ss. expand ids k n = Inr ss \<and> length ss = length (valid_moves row col)
          \<and> (\<forall>j < length ss.
                move (ids (k + j)) n (valid_moves row col ! j) = Inr (ss ! j)
                \<and> find_val (board_state (ss ! j)) 0 =
                    Inr (Some (row + (if valid_moves row col ! j = ''up'' then - 1
                                      else if valid_moves row col ! j = ''down'' then 1 else 0),
                               col + (if valid_moves row col ! j = ''left'' then - 1
                                      else if valid_moves row col ! j = ''right'' then 1 else 0))))
          \<and> (row = 0 \<and> col = 0 \<longrightarrow> length ss = 2 \<and> valid_moves row col = [''down'', ''right''])
          \<and> (row = 1 \<and> col = 1 \<longrightarrow> length ss = 4)"
    by blast
  with dirs_list show ?thesis by blast
qed

theorem expand_one_successor_per_valid_direction_witness:
  "wf_node corner_node \<and> board_state corner_node ! 0 ! 0 = 0
   \<and> valid_moves 0 0 = [''down'', ''right'']
   \<and> (\<exists>ss. expand id 2 corner_node = Inr ss \<and> length ss = 2
         \<and> move 2 corner_node ''down'' = Inr (ss ! 0)
         \<and> move 3 corner_node ''right'' = Inr (ss ! 1)
         \<and> find_val (board_state (ss ! 0)) 0 = Inr (Some (1, 0))
         \<and> find_val (board_state (ss ! 1)) 0 = Inr (Some (0, 1)))"
proof -
  have b: "board_state corner_node ! nat 0 ! nat 0 = 0"
    by (simp add: corner_node_def corner_board_def to_2d_array_def upt_rec)
  have v: "valid_moves 0 0 = [''down'', ''right'']" by (simp add: valid_moves_def)
  from expand_one_successor_per_valid_direction[OF wf_corner_node _ _ _ _ b, of id 2]
  obtain ss where ss: "expand id 2 corner_node = Inr ss" "length ss = 2"
    "\<forall>j < length ss.
        move (id (2 + j)) corner_node (valid_moves 0 0 ! j) = Inr (ss ! j)
        \<and> find_val (board_state (ss ! j)) 0 =
            Inr (Some (0 + (if valid_moves 0 0 ! j = ''up'' then - 1
                              else if valid_moves 0 0 ! j = ''down'' then 1 else 0),
                       0 + (if valid_moves 0 0 ! j = ''left'' then - 1
                              else if valid_moves 0 0 ! j = ''right'' then 1 else 0)))"
    by auto
  from ss(3)[rule_format, of 0] ss(3)[rule_format, of 1] ss(2)
  have "move 2 corner_node ''down'' = Inr (ss ! 0)" "move 3 corner_node ''right'' = Inr (ss ! 1)"
    "find_val (board_state (ss ! 0)) 0 = Inr (Some (1, 0))"
    "find_val (board_state (ss ! 1)) 0 = Inr (Some (0, 1))"
    by (simp_all add: v)
  with ss(1,2) v b wf_corner_node show ?thesis by auto
qed

lemma distinct_count_one: "distinct xs \<Longrightarrow> x \<in> set xs \<Longrightarrow> count_list xs x = 1"
  by (induction xs) auto

lemma is_board_one_blank: "is_board b \<Longrightarrow> count_list b 0 = 1"
  by (rule distinct_count_one) (simp_all add: is_board_def)

lemma wf_node_blank_index:
  assumes "wf_node n"
  shows "\<exists>z < 16. board_state_1d n ! z = 0 \<and> list_index (board_state_1d n) 0 = Inr (int z)
     \<and> find_val (board_state n) 0 = Inr (Some (int (z div 4), int (z mod 4)))"
proof -
  have b: "is_board (board_state_1d n)" "board_state n = to_2d_array (board_state_1d n)"
    using assms by (simp_all add: wf_node_def)
  from is_board_blank[OF b(1)] obtain z where
    z: "z < 16" "list_index (board_state_1d n) 0 = Inr (int z)" "board_state_1d n ! z = 0"
    by blast
  have "find_val (board_state n) 0 = Inr (Some (cell_of z))"
    using find_val_at[OF is_board_distinct[OF b(1)] is_board_length[OF b(1)] z(1)] z(3) b(2)
    by simp
  with z show ?thesis by (auto simp: cell_of_def)
qed

lemma succ_of_wf: "succ_of n z ident d s \<Longrightarrow> wf_node n \<Longrightarrow> wf_node s"
  by (auto simp: succ_of_def wf_node_def)

lemma expands_to_succ:
  assumes "wf_node n" "expands_to n s"
  shows "\<exists>z ident d. z < 16 \<and> board_state_1d n ! z = 0
     \<and> d \<in> set (valid_moves (int (z div 4)) (int (z mod 4))) \<and> succ_of n z ident d s"
proof -
  from assms(2) obtain ids k ss where e: "expand ids k n = Inr ss" "s \<in> set ss"
    by (auto elim: expands_to.cases)
  from wf_node_blank_index[OF assms(1)] obtain z where z: "z < 16" "board_state_1d n ! z = 0"
    by blast
  from expand_valid[OF assms(1) z, of ids k] e(1) have
    l: "length ss = length (valid_moves (int (z div 4)) (int (z mod 4)))"
    and a: "\<forall>j < length ss.
          succ_of n z (ids (k + j)) (valid_moves (int (z div 4)) (int (z mod 4)) ! j) (ss ! j)"
    by auto
  from e(2) obtain j where j: "j < length ss" "ss ! j = s" by (auto simp: in_set_conv_nth)
  with a l z show ?thesis
    by (intro exI[of _ z] exI[of _ "ids (k + j)"]
        exI[of _ "valid_moves (int (z div 4)) (int (z mod 4)) ! j"]) auto
qed

lemma expands_to_wf: "wf_node n \<Longrightarrow> expands_to n s \<Longrightarrow> wf_node s"
  using expands_to_succ succ_of_wf by blast

lemma reachable_wf: "expands_to\<^sup>*\<^sup>* n s \<Longrightarrow> wf_node n \<Longrightarrow> wf_node s"
  by (induction rule: rtranclp_induct) (auto intro: expands_to_wf)

text \<open>
  Claim C8. Expanding a well-formed node (its board a permutation of 0..15) returns
  successors, one per valid direction, and the board of each is again a permutation of
  0..15. Hence every node reached by repeated expansion has a permutation board, with
  exactly one blank.
\<close>

theorem successor_boards_are_permutations:
  assumes "wf_node n"
  shows "(\<exists>ss. expand ids k n = Inr ss \<and> ss \<noteq> []
            \<and> (\<forall>s \<in> set ss. is_board (board_state_1d s)))
    \<and> (\<forall>s. expands_to\<^sup>*\<^sup>* n s \<longrightarrow>
            is_board (board_state_1d s) \<and> count_list (board_state_1d s) 0 = 1)"
proof -
  from wf_node_blank_index[OF assms] obtain z where z: "z < 16" "board_state_1d n ! z = 0"
    by blast
  from expand_valid[OF assms z, of ids k] obtain ss where
    ss: "expand ids k n = Inr ss"
      "length ss = length (valid_moves (int (z div 4)) (int (z mod 4)))" by blast
  have "valid_moves (int (z div 4)) (int (z mod 4)) \<noteq> []"
    by (auto simp: valid_moves_def)
  with ss(2) have ne: "ss \<noteq> []" by auto
  have "is_board (board_state_1d s)" if "s \<in> set ss" for s
  proof -
    have "expands_to n s" using ss(1) that by (rule expands_to.intros)
    from expands_to_wf[OF assms this] show ?thesis by (simp add: wf_node_def)
  qed
  moreover have "is_board (board_state_1d s) \<and> count_list (board_state_1d s) 0 = 1"
    if "expands_to\<^sup>*\<^sup>* n s" for s
  proof -
    from reachable_wf[OF that assms] have "is_board (board_state_1d s)"
      by (simp add: wf_node_def)
    then show ?thesis by (simp add: is_board_one_blank)
  qed
  ultimately show ?thesis using ss(1) ne by blast
qed

theorem successor_boards_are_permutations_witness:
  "wf_node corner_node
   \<and> (\<exists>ss. expand id 2 corner_node = Inr ss \<and> ss \<noteq> []
          \<and> list_all (\<lambda>s. is_board (board_state_1d s)) ss)
   \<and> is_board (board_state_1d corner_node) \<and> count_list (board_state_1d corner_node) 0 = 1"
  using successor_boards_are_permutations[OF wf_corner_node, of id 2] wf_corner_node
  by (auto simp: list_all_iff)

text \<open>
  Claim C1. Expanding a well-formed node with the blank at (row, col) returns one successor
  per valid direction. For each, with \<open>z\<close> the blank's flat position and \<open>tile\<close> the value at
  the target position \<open>z + delta\<close> of the parent's board (before the swap): the tile is one
  of 1..15 (never the blank), the successor's g is the parent's g plus 1 when the tile is
  in 1..9 and plus 10 when it is in 10..15, which is \<open>val_multiplier\<close> of the tile, and in
  the successor's board the tile stands where the blank was.
\<close>

theorem successor_cost_is_moved_tile_weight:
  assumes "wf_node n" "find_val (board_state n) 0 = Inr (Some (row, col))"
  shows "\<exists>ss. expand ids k n = Inr ss \<and> length ss = length (valid_moves row col)
    \<and> (\<forall>j < length ss. \<exists>z delta tile.
          list_index (board_state_1d n) 0 = Inr z
          \<and> dirs (valid_moves row col ! j) = Some delta
          \<and> getitem (board_state_1d n) (z + delta) = Inr tile
          \<and> move (ids (k + j)) n (valid_moves row col ! j) = Inr (ss ! j)
          \<and> 1 \<le> tile \<and> tile \<le> 15
          \<and> g_of_n (ss ! j) = g_of_n n + (if tile \<le> 9 then 1 else 10)
          \<and> val_multiplier tile = Some (g_of_n (ss ! j) - g_of_n n)
          \<and> getitem (board_state_1d (ss ! j)) z = Inr tile
          \<and> getitem (board_state_1d (ss ! j)) (z + delta) = Inr 0)"
proof -
  from wf_node_blank_index[OF assms(1)] obtain z where z: "z < 16" "board_state_1d n ! z = 0"
    "list_index (board_state_1d n) 0 = Inr (int z)"
    "find_val (board_state n) 0 = Inr (Some (int (z div 4), int (z mod 4)))" by blast
  from z(4) assms(2) have rc: "int (z div 4) = row" "int (z mod 4) = col" by simp_all
  have len: "length (board_state_1d n) = 16"
    using assms(1) by (simp add: wf_node_def is_board_length)
  from expand_valid[OF assms(1) z(1,2), of ids k] obtain ss where
    ss: "expand ids k n = Inr ss" "length ss = length (valid_moves row col)"
      "\<forall>j < length ss. succ_of n z (ids (k + j)) (valid_moves row col ! j) (ss ! j)"
    unfolding rc by blast
  have "\<exists>zz delta tile.
          list_index (board_state_1d n) 0 = Inr zz
          \<and> dirs (valid_moves row col ! j) = Some delta
          \<and> getitem (board_state_1d n) (zz + delta) = Inr tile
          \<and> move (ids (k + j)) n (valid_moves row col ! j) = Inr (ss ! j)
          \<and> 1 \<le> tile \<and> tile \<le> 15
          \<and> g_of_n (ss ! j) = g_of_n n + (if tile \<le> 9 then 1 else 10)
          \<and> val_multiplier tile = Some (g_of_n (ss ! j) - g_of_n n)
          \<and> getitem (board_state_1d (ss ! j)) zz = Inr tile
          \<and> getitem (board_state_1d (ss ! j)) (zz + delta) = Inr 0"
    if j: "j < length ss" for j
  proof -
    from ss(3) j obtain delta t where
      t: "dirs (valid_moves row col ! j) = Some delta" "int z + delta = int t" "t < 16" "t \<noteq> z"
        "move (ids (k + j)) n (valid_moves row col ! j) = Inr (ss ! j)"
        "board_state_1d (ss ! j) = (board_state_1d n)[z := board_state_1d n ! t, t := 0]"
        "1 \<le> board_state_1d n ! t" "board_state_1d n ! t \<le> 15"
        "g_of_n (ss ! j) = g_of_n n + (if board_state_1d n ! t < 10 then 1 else 10)"
      unfolding succ_of_def by blast
    have g1: "getitem (board_state_1d n) (int z + delta) = Inr (board_state_1d n ! t)"
      unfolding t(2) using t(3) len by (simp add: getitem_nat)
    have g2: "getitem (board_state_1d (ss ! j)) (int z) = Inr (board_state_1d n ! t)"
      unfolding t(6) using z(1) t(3,4) len by (simp add: getitem_nat)
    have g3: "getitem (board_state_1d (ss ! j)) (int z + delta) = Inr 0"
      unfolding t(2) t(6) using t(3) len by (simp add: getitem_nat)
    have vm: "val_multiplier (board_state_1d n ! t) = Some (g_of_n (ss ! j) - g_of_n n)"
      using t(7,8,9) by (simp add: val_multiplier_def)
    show ?thesis
      apply (rule exI[of _ "int z"], rule exI[of _ delta], rule exI[of _ "board_state_1d n ! t"])
      using z(3) t(1,5,7,8,9) g1 g2 g3 vm by simp
  qed
  with ss(1,2) show ?thesis by blast
qed

lemma wf_ss_node: "wf_node ss_node"
  by (simp add: wf_node_def ss_node_def goal_ok_def is_board_check ss_board_def)

lemma find_blank_ss_node: "find_val (board_state ss_node) 0 = Inr (Some (2, 1))"
  by (simp add: ss_node_def ss_board_def find_val_def to_2d_array_def range4_def
      getitem_def norm_index_def upt_rec)

lemma list_index_ss_board: "list_index ss_board 0 = Inr 9"
  by (simp add: ss_board_def)

theorem successor_cost_is_moved_tile_weight_witness:
  "wf_node ss_node \<and> find_val (board_state ss_node) 0 = Inr (Some (2, 1))
   \<and> valid_moves 2 1 = [''up'', ''down'', ''left'', ''right'']
   \<and> (\<exists>ss. expand id 2 ss_node = Inr ss \<and> length ss = 4
         \<and> g_of_n (ss ! 0) = 10 \<and> g_of_n (ss ! 1) = 10 \<and> g_of_n (ss ! 2) = 10
         \<and> g_of_n (ss ! 3) = 1)"
proof -
  have v: "valid_moves 2 1 = [''up'', ''down'', ''left'', ''right'']"
    by (simp add: valid_moves_def)
  have g: "getitem ss_board 5 = Inr 11" "getitem ss_board 13 = Inr 14"
    "getitem ss_board 8 = Inr 12" "getitem ss_board 10 = Inr 2"
    by (simp_all add: ss_board_def getitem_def norm_index_def)
  have d: "dirs ''up'' = Some (- 4)" "dirs ''down'' = Some 4" "dirs ''left'' = Some (- 1)"
    "dirs ''right'' = Some 1" by (simp_all add: dirs_def)
  have b: "board_state_1d ss_node = ss_board" "g_of_n ss_node = 0" by (simp_all add: ss_node_def)
  from successor_cost_is_moved_tile_weight[OF wf_ss_node find_blank_ss_node, of id 2]
  obtain ss where ss: "expand id 2 ss_node = Inr ss" "length ss = 4"
    and a: "\<forall>j < length ss. \<exists>z delta tile.
          list_index (board_state_1d ss_node) 0 = Inr z
          \<and> dirs (valid_moves 2 1 ! j) = Some delta
          \<and> getitem (board_state_1d ss_node) (z + delta) = Inr tile
          \<and> move (id (2 + j)) ss_node (valid_moves 2 1 ! j) = Inr (ss ! j)
          \<and> 1 \<le> tile \<and> tile \<le> 15
          \<and> g_of_n (ss ! j) = g_of_n ss_node + (if tile \<le> 9 then 1 else 10)
          \<and> val_multiplier tile = Some (g_of_n (ss ! j) - g_of_n ss_node)
          \<and> getitem (board_state_1d (ss ! j)) z = Inr tile
          \<and> getitem (board_state_1d (ss ! j)) (z + delta) = Inr 0"
    unfolding v by auto
  from a[rule_format, of 0] a[rule_format, of 1] a[rule_format, of 2] a[rule_format, of 3]
  have "g_of_n (ss ! 0) = 10" "g_of_n (ss ! 1) = 10" "g_of_n (ss ! 2) = 10" "g_of_n (ss ! 3) = 1"
    unfolding v b list_index_ss_board using ss(2) by (auto simp: d g)
  with ss v wf_ss_node find_blank_ss_node show ?thesis by auto
qed

section \<open>The search loop: trivial and failing runs\<close>

lemma new_goal_state:
  "new_PuzzleState ident b None None 0 0 =
     Inr (PuzzleState None ident b (to_2d_array b) None 0 0 0 0 0 0)"
  by (simp add: new_PuzzleState_def estimated_cost_to_goal_h1_def estimated_cost_to_goal_h2_def)

lemma goal_ok_goal_state:
  "is_board b \<Longrightarrow> goal_ok (Some (PuzzleState None ident b (to_2d_array b) None 0 0 0 0 0 0))"
  by (simp add: goal_ok_def)

lemma heappush_empty: "heappush [] item = [item]"
  by (simp add: heappush_def)

lemma heappop_single: "heappop [item] = Inr (item, [])"
  by (simp add: heappop_def)


lemma path_loop_root: "depth s = 0 \<Longrightarrow> path_loop s p closed_list = Some (Inr p)"
  by (subst path_loop.simps) simp

text \<open>
  Claim C6. When the start board is the goal board (a permutation of 0..15), \<open>solve\<close>
  returns for every method: the root is popped, found to be the goal, and the report has
  a path of the root alone (0 moves), 0 nodes added to the open list and an empty closed
  list.
\<close>

theorem solve_start_is_goal:
  assumes "is_board b"
  shows "\<exists>r. solve ids b b method = Some (Inr r)
    \<and> number_of_moves r = 0 \<and> added_to_open r = 0 \<and> added_to_closed r = 0
    \<and> map board_state_1d (path r) = [b] \<and> map depth (path r) = [0]"
proof -
  define g where "g = PuzzleState None (ids 0) b (to_2d_array b) None 0 0 0 0 0 0"
  have gs: "new_PuzzleState (ids 0) b None None 0 0 = Inr g"
    unfolding g_def by (rule new_goal_state)
  have "goal_ok (Some g)" unfolding g_def using assms by (rule goal_ok_goal_state)
  from new_PuzzleState_defined[OF assms this, of "ids 1" None 0 0] obtain h1 h2 where
    st: "new_PuzzleState (ids 1) b (Some g) None 0 0 =
      Inr (PuzzleState None (ids 1) b (to_2d_array b) (Some g) h1 h2 0 (0 + h1) (0 + h2) 0)"
    by blast
  define s where "s = PuzzleState None (ids 1) b (to_2d_array b) (Some g) h1 h2 0 (0 + h1) (0 + h2) 0"
  have s: "board_state_1d s = b" "depth s = 0" by (simp_all add: s_def)
  have p: "print_success_message s [] 0 method =
     Some (Inr \<lparr>solved_with = method, path = [s], number_of_moves = 0, added_to_open = 0,
                 added_to_closed = 0\<rparr>)"
    by (simp add: print_success_message_def get_state_path_def path_loop_root[OF s(2)])
  have "search_loop ids b method [(0, id_no s, s)] [] 0 2 =
     Some (Inr \<lparr>solved_with = method, path = [s], number_of_moves = 0, added_to_open = 0,
                 added_to_closed = 0\<rparr>)"
    by (subst search_loop.simps) (simp add: heappop_single s p)
  then have "solve ids b b method =
     Some (Inr \<lparr>solved_with = method, path = [s], number_of_moves = 0, added_to_open = 0,
                 added_to_closed = 0\<rparr>)"
    using st by (simp add: solve_def gs heappush_empty s_def)
  then show ?thesis using s by simp
qed

theorem solve_start_is_goal_witness:
  "is_board goal_board
   \<and> (\<exists>r. solve id goal_board goal_board ''a_star_h1'' = Some (Inr r)
         \<and> number_of_moves r = 0 \<and> added_to_open r = 0 \<and> added_to_closed r = 0
         \<and> map board_state_1d (path r) = [goal_board])"
proof -
  have a: "is_board goal_board" by (simp add: is_board_check goal_board_def)
  from solve_start_is_goal[OF a, of id "''a_star_h1''"] obtain r where
    "solve id goal_board goal_board ''a_star_h1'' = Some (Inr r)"
    "number_of_moves r = 0" "added_to_open r = 0" "added_to_closed r = 0"
    "map board_state_1d (path r) = [goal_board]" by (elim exE conjE)
  with a show ?thesis by (intro conjI exI[of _ r])
qed






lemma start_state_defined:
  assumes "is_board start" "is_board goal"
  shows "\<exists>g s. new_PuzzleState (ids 0) goal None None 0 0 = Inr g
    \<and> new_PuzzleState (ids 1) start (Some g) None 0 0 = Inr s
    \<and> board_state_1d g = goal \<and> board_state g = to_2d_array goal
    \<and> wf_node s \<and> board_state_1d s = start \<and> depth s = 0 \<and> g_of_n s = 0
    \<and> id_no s = ids 1 \<and> parent_id s = None \<and> goal_puzzle_state s = Some g"
proof -
  define g where "g = PuzzleState None (ids 0) goal (to_2d_array goal) None 0 0 0 0 0 0"
  have gs: "new_PuzzleState (ids 0) goal None None 0 0 = Inr g"
    unfolding g_def by (rule new_goal_state)
  have ok: "goal_ok (Some g)" unfolding g_def using assms(2) by (rule goal_ok_goal_state)
  from new_PuzzleState_defined[OF assms(1) ok, of "ids 1" None 0 0] obtain h1 h2 where
    st: "new_PuzzleState (ids 1) start (Some g) None 0 0 =
      Inr (PuzzleState None (ids 1) start (to_2d_array start) (Some g) h1 h2 0 (0 + h1) (0 + h2) 0)"
    by blast
  show ?thesis
    apply (rule exI[of _ g])
    apply (rule exI[of _ "PuzzleState None (ids 1) start (to_2d_array start) (Some g) h1 h2 0 (0 + h1) (0 + h2) 0"])
    using gs st ok assms(1) by (simp add: wf_node_def g_def)
qed

lemma wf_node_expand_defined:
  assumes "wf_node n"
  shows "\<exists>ss. expand ids k n = Inr ss"
proof -
  from wf_node_blank_index[OF assms] obtain z where "z < 16" "board_state_1d n ! z = 0" by blast
  from expand_valid[OF assms this, of ids k] show ?thesis by blast
qed



section \<open>Move sequences on boards\<close>

lemma succ_of_determined:
  assumes "succ_of n z i d s" "succ_of n' z i' d s'" "board_state_1d n = board_state_1d n'"
  shows "board_state_1d s = board_state_1d s' \<and> g_of_n s - g_of_n n = g_of_n s' - g_of_n n'"
proof -
  from assms(1) obtain delta t where
    t: "dirs d = Some delta" "int z + delta = int t"
      "board_state_1d s = (board_state_1d n)[z := board_state_1d n ! t, t := 0]"
      "g_of_n s = g_of_n n + (if board_state_1d n ! t < 10 then 1 else 10)"
    unfolding succ_of_def by blast
  from assms(2) obtain delta' t' where
    t': "dirs d = Some delta'" "int z + delta' = int t'"
      "board_state_1d s' = (board_state_1d n')[z := board_state_1d n' ! t', t' := 0]"
      "g_of_n s' = g_of_n n' + (if board_state_1d n' ! t' < 10 then 1 else 10)"
    unfolding succ_of_def by blast
  from t(1,2) t'(1,2) have "t = t'" by simp
  with t(3,4) t'(3,4) assms(3) show ?thesis by simp
qed

lemma wf_fresh_node: "is_board b \<Longrightarrow> wf_node (PuzzleState None i b (to_2d_array b) None 0 0 0 0 0 0)"
  by (simp add: wf_node_def goal_ok_def)

lemma expand_board_moves:
  assumes "wf_node n" "expand ids k n = Inr ss"
  shows "map (\<lambda>s. (board_state_1d s, g_of_n s - g_of_n n)) ss = board_moves (board_state_1d n)"
proof -
  define b where "b = board_state_1d n"
  define n0 where "n0 = PuzzleState None 0 b (to_2d_array b) None 0 0 0 0 0 0"
  have b: "is_board b" using assms(1) by (simp add: wf_node_def b_def)
  have wf0: "wf_node n0" unfolding n0_def using b by (rule wf_fresh_node)
  have b0: "board_state_1d n0 = b" "g_of_n n0 = 0" by (simp_all add: n0_def)
  from wf_node_blank_index[OF assms(1)] obtain z where z: "z < 16" "board_state_1d n ! z = 0"
    by blast
  define ds where "ds = valid_moves (int (z div 4)) (int (z mod 4))"
  from expand_valid[OF assms(1) z, of ids k] assms(2) have
    ss: "length ss = length ds" "\<forall>j < length ss. succ_of n z (ids (k + j)) (ds ! j) (ss ! j)"
    unfolding ds_def by auto
  have z0: "board_state_1d n0 ! z = 0" using z(2) by (simp add: b0 b_def)
  from expand_valid[OF wf0 z(1) z0, of id 0] obtain ss0 where
    ss0: "expand id 0 n0 = Inr ss0" "length ss0 = length ds"
      "\<forall>j < length ss0. succ_of n0 z (id (0 + j)) (ds ! j) (ss0 ! j)"
    unfolding ds_def by blast
  have bm: "board_moves b = map (\<lambda>s. (board_state_1d s, g_of_n s)) ss0"
    using ss0(1) by (simp add: board_moves_def new_goal_state n0_def[symmetric])
  have "map (\<lambda>s. (board_state_1d s, g_of_n s - g_of_n n)) ss
      = map (\<lambda>s. (board_state_1d s, g_of_n s)) ss0"
  proof (rule nth_equalityI)
    show "length (map (\<lambda>s. (board_state_1d s, g_of_n s - g_of_n n)) ss)
        = length (map (\<lambda>s. (board_state_1d s, g_of_n s)) ss0)"
      using ss(1) ss0(2) by simp
  next
    fix j assume "j < length (map (\<lambda>s. (board_state_1d s, g_of_n s - g_of_n n)) ss)"
    then have j: "j < length ss" "j < length ss0" using ss(1) ss0(2) by simp_all
    from succ_of_determined[OF ss(2)[rule_format, OF j(1)] ss0(3)[rule_format, OF j(2)]]
    have "board_state_1d (ss ! j) = board_state_1d (ss0 ! j)"
      "g_of_n (ss ! j) - g_of_n n = g_of_n (ss0 ! j)"
      by (simp_all add: b0 b_def)
    with j show "map (\<lambda>s. (board_state_1d s, g_of_n s - g_of_n n)) ss ! j
        = map (\<lambda>s. (board_state_1d s, g_of_n s)) ss0 ! j" by simp
  qed
  with bm show ?thesis by (simp add: b_def)
qed

lemma board_moves_is_board:
  assumes "is_board b" "(c, w) \<in> set (board_moves b)"
  shows "is_board c"
proof -
  define n0 where "n0 = PuzzleState None 0 b (to_2d_array b) None 0 0 0 0 0 0"
  have wf0: "wf_node n0" unfolding n0_def using assms(1) by (rule wf_fresh_node)
  from wf_node_expand_defined[OF wf0, of id 0] obtain ss where ss: "expand id 0 n0 = Inr ss"
    by blast
  from expand_board_moves[OF wf0 ss] assms(2)
  have "(c, w) \<in> set (map (\<lambda>s. (board_state_1d s, g_of_n s - g_of_n n0)) ss)"
    by (simp add: n0_def)
  then obtain s where s: "s \<in> set ss" "board_state_1d s = c" by auto
  have "expands_to n0 s" using ss s(1) by (rule expands_to.intros)
  from expands_to_wf[OF wf0 this] s(2) show ?thesis by (simp add: wf_node_def)
qed

lemma and_then_Inr: "and_then m f = Inr y \<longleftrightarrow> (\<exists>x. m = Inr x \<and> f x = Inr y)"
  by (cases m) simp_all

lemma map_move_length: "map_move ids k n ds = Inr ss \<Longrightarrow> length ss = length ds"
  by (induction ds arbitrary: k ss) (auto simp: and_then_Inr)

lemma expand_length: "expand ids k n = Inr ss \<Longrightarrow> length ss \<le> 4"
  by (auto simp: expand_def and_then_Inr valid_moves_def dest!: map_move_length)

lemma board_moves_length: "length (board_moves b) \<le> 4"
  by (auto simp: board_moves_def split: sum.splits dest: expand_length)

lemma linked_mono:
  "linked start cl n \<Longrightarrow> set cl \<subseteq> set cl' \<Longrightarrow> linked start cl' n"
  unfolding linked_def by (auto split: if_splits)

lemma walk_cost_steps:
  "walk_cost bs = Some c \<Longrightarrow> bs \<noteq> [] \<and> (board_step ^^ (length bs - 1)) (hd bs) (last bs)"
proof (induction bs arbitrary: c rule: walk_cost.induct)
  case 1
  then show ?case by simp
next
  case (2 b)
  then show ?case by simp
next
  case (3 b c' rest)
  from "3.prems" obtain w v where w: "map_of (board_moves b) c' = Some w"
    and v: "walk_cost (c' # rest) = Some v"
    by (auto split: option.splits)
  from w have "(c', w) \<in> set (board_moves b)" by (rule map_of_SomeD)
  then have st: "board_step b c'" unfolding board_step_def by force
  from "3.IH"[OF w v] have "(board_step ^^ (length (c' # rest) - 1)) c' (last (c' # rest))"
    by simp
  with st have "(board_step ^^ Suc (length (c' # rest) - 1)) b (last (c' # rest))"
    by (rule relpowp_Suc_I2)
  then show ?case by simp
qed

lemma find_inj_on:
  "inj_on f (set xs) \<Longrightarrow> p \<in> set xs \<Longrightarrow> List.find (\<lambda>c. Some (f c) = Some (f p)) xs = Some p"
proof (induction xs)
  case Nil
  then show ?case by simp
next
  case (Cons x xs)
  show ?case
  proof (cases "f x = f p")
    case True
    with Cons.prems have "x = p" by (auto simp: inj_on_def)
    then show ?thesis by simp
  next
    case False
    with Cons.prems have "p \<in> set xs" "inj_on f (set xs)" by auto
    with Cons.IH False show ?thesis by simp
  qed
qed

lemma board_moves_elem:
  assumes "is_board b" "(c, w) \<in> set (board_moves b)"
  shows "\<exists>z t. z < 16 \<and> t < 16 \<and> t \<noteq> z \<and> b ! z = 0 \<and> c = b[z := b ! t, t := 0]
     \<and> w = (if b ! t < 10 then 1 else 10)"
proof -
  define n0 where "n0 = PuzzleState None 0 b (to_2d_array b) None 0 0 0 0 0 0"
  have wf0: "wf_node n0" unfolding n0_def using assms(1) by (rule wf_fresh_node)
  have b0: "board_state_1d n0 = b" "g_of_n n0 = 0" by (simp_all add: n0_def)
  from wf_node_expand_defined[OF wf0, of id 0] obtain ss where ss: "expand id 0 n0 = Inr ss"
    by blast
  from expand_board_moves[OF wf0 ss] assms(2)
  have "(c, w) \<in> set (map (\<lambda>s. (board_state_1d s, g_of_n s - g_of_n n0)) ss)"
    by (simp add: b0)
  then obtain s where s: "s \<in> set ss" "board_state_1d s = c" "g_of_n s = w"
    by (auto simp: b0)
  have "expands_to n0 s" using ss s(1) by (rule expands_to.intros)
  from expands_to_succ[OF wf0 this] obtain z i d where
    "z < 16" "board_state_1d n0 ! z = 0" "succ_of n0 z i d s" by blast
  then obtain t where "z < 16" "b ! z = 0" "t < 16" "t \<noteq> z"
    "board_state_1d s = b[z := b ! t, t := 0]"
    "g_of_n s = 0 + (if b ! t < 10 then 1 else 10)"
    unfolding succ_of_def b0 by blast
  with s(2,3) show ?thesis by (intro exI[of _ z] exI[of _ t]) simp
qed

lemma board_moves_functional:
  assumes "is_board b" "(c, w) \<in> set (board_moves b)" "(c, w') \<in> set (board_moves b)"
  shows "w = w'"
proof -
  have len: "length b = 16" using assms(1) by (rule is_board_length)
  from board_moves_elem[OF assms(1,2)] obtain z t where
    1: "t < 16" "c = b[z := b ! t, t := 0]" "w = (if b ! t < 10 then 1 else 10)" by blast
  from board_moves_elem[OF assms(1,3)] obtain z' t' where
    2: "t' < 16" "c = b[z' := b ! t', t' := 0]" "w' = (if b ! t' < 10 then 1 else 10)" by blast
  have c: "is_board c" using assms(1,2) by (rule board_moves_is_board)
  have "c ! t = 0" unfolding 1(2) using 1(1) len by simp
  moreover have "c ! t' = 0" unfolding 2(2) using 2(1) len by simp
  ultimately have "c ! t = c ! t'" by simp
  then have "t = t'"
    using is_board_distinct[OF c] is_board_length[OF c] 1(1) 2(1)
    by (simp add: nth_eq_iff_index_eq)
  with 1(3) 2(3) show ?thesis by simp
qed

lemma board_moves_map_of:
  assumes "is_board b" "(c, w) \<in> set (board_moves b)"
  shows "map_of (board_moves b) c = Some w"
proof -
  from weak_map_of_SomeI[OF assms(2)] obtain w' where w': "map_of (board_moves b) c = Some w'"
    by blast
  from map_of_SomeD[OF this] board_moves_functional[OF assms] have "w = w'" by blast
  with w' show ?thesis by simp
qed

lemma walk_cost_snoc:
  "walk_cost bs = Some c \<Longrightarrow> map_of (board_moves (last bs)) b' = Some w \<Longrightarrow>
   walk_cost (bs @ [b']) = Some (c + w)"
proof (induction bs arbitrary: c rule: walk_cost.induct)
  case 1
  then show ?case by simp
next
  case (2 b)
  then show ?case by simp
next
  case (3 b c' rest)
  from "3.prems"(1) obtain u v where u: "map_of (board_moves b) c' = Some u"
    and v: "walk_cost (c' # rest) = Some v" and c: "c = u + v"
    by (auto split: option.splits)
  from "3.IH"[OF u v] "3.prems"(2) have "walk_cost ((c' # rest) @ [b']) = Some (v + w)" by simp
  with u c show ?case by simp
qed

text \<open>
  The reported path, from the goal node back to the root, as a move sequence: the boards
  in start-to-goal order and the cost of the last node.
\<close>

lemma path_loop_linked:
  assumes cl: "\<forall>n \<in> set cl. linked start cl n" and inj: "inj_on id_no (set cl)"
  shows "linked start cl n \<Longrightarrow> depth n = int d \<Longrightarrow>
    \<exists>anc. path_loop n acc cl = Some (Inr (acc @ anc)) \<and> length anc = d
      \<and> walk_cost (rev (map board_state_1d (n # anc))) = Some (g_of_n n)
      \<and> hd (rev (map board_state_1d (n # anc))) = start"
proof (induction d arbitrary: n acc)
  case 0
  then have "board_state_1d n = start" "g_of_n n = 0" by (simp_all add: linked_def)
  with 0 show ?case by (simp add: path_loop_root)
next
  case (Suc d)
  from Suc.prems obtain p where p: "p \<in> set cl" "parent_id n = Some (id_no p)"
      "depth n = depth p + 1"
      "(board_state_1d n, g_of_n n - g_of_n p) \<in> set (board_moves (board_state_1d p))"
    by (auto simp: linked_def)
  have gp: "get_parent_state n cl = Some p"
    unfolding get_parent_state_def p(2) using inj p(1) by (rule find_inj_on)
  have lp: "linked start cl p" using cl p(1) by blast
  have dp: "depth p = int d" using p(3) Suc.prems(2) by simp
  from Suc.IH[OF lp dp, of "acc @ [p]"] obtain anc where
    anc: "path_loop p (acc @ [p]) cl = Some (Inr ((acc @ [p]) @ anc))" "length anc = d"
      "walk_cost (rev (map board_state_1d (p # anc))) = Some (g_of_n p)"
      "hd (rev (map board_state_1d (p # anc))) = start"
    by blast
  have "is_board (board_state_1d p)" using lp by (simp add: linked_def wf_node_def)
  from board_moves_map_of[OF this p(4)]
  have "map_of (board_moves (last (rev (map board_state_1d (p # anc))))) (board_state_1d n)
      = Some (g_of_n n - g_of_n p)" by simp
  from walk_cost_snoc[OF anc(3) this]
  have w: "walk_cost (rev (map board_state_1d (n # p # anc))) = Some (g_of_n n)" by simp
  have h: "hd (rev (map board_state_1d (n # p # anc))) = start"
    using anc(4) by (simp add: hd_append split: if_splits)
  have "path_loop n acc cl = path_loop p (acc @ [p]) cl"
    using Suc.prems(2) gp by (subst path_loop.simps) simp
  with anc(1,2) w h show ?case by (intro exI[of _ "p # anc"]) simp
qed

section \<open>Breadth-first search\<close>

lemma sum_list_insort_key:
  "sum_list (map f (insort_key g x xs)) = (f x :: nat) + sum_list (map f xs)"
  by (induction xs) auto

lemma push_bfs_set:
  "set (push_expansions ''bfs'' ss ol) = set ol \<union> (\<lambda>s. (depth s, id_no s, s)) ` set ss"
  by (induction ss arbitrary: ol) (auto simp: push_state_def heappush_def set_insort_key)

lemma push_bfs_sorted:
  "sorted (map entry_key ol) \<Longrightarrow> sorted (map entry_key (push_expansions ''bfs'' ss ol))"
  by (induction ss arbitrary: ol) (simp_all add: push_state_def heappush_def sorted_insort_key)

lemma push_bfs_sum:
  "sum_list (map f (push_expansions ''bfs'' ss ol)) =
     sum_list (map f ol) + (sum_list (map (\<lambda>s. f (depth s, id_no s, s)) ss) :: nat)"
  by (induction ss arbitrary: ol)
    (simp_all add: push_state_def heappush_def sum_list_insort_key)

lemma sum_list_const: "(\<And>x. x \<in> set xs \<Longrightarrow> f x = (c :: nat)) \<Longrightarrow> sum_list (map f xs) = length xs * c"
  by (induction xs) auto

lemma expand_successors_linked:
  assumes "wf_node n" "expand ids k n = Inr ss" "j < length ss"
  shows "depth (ss ! j) = depth n + 1 \<and> parent_id (ss ! j) = Some (id_no n)
    \<and> id_no (ss ! j) = ids (k + j) \<and> wf_node (ss ! j)
    \<and> (board_state_1d (ss ! j), g_of_n (ss ! j) - g_of_n n)
         \<in> set (board_moves (board_state_1d n))"
proof -
  from wf_node_blank_index[OF assms(1)] obtain z where z: "z < 16" "board_state_1d n ! z = 0"
    by blast
  from expand_valid[OF assms(1) z, of ids k] assms(2,3) have
    s: "succ_of n z (ids (k + j)) (valid_moves (int (z div 4)) (int (z mod 4)) ! j) (ss ! j)"
    by auto
  have wf: "wf_node (ss ! j)" using s assms(1) by (rule succ_of_wf)
  have "(board_state_1d (ss ! j), g_of_n (ss ! j) - g_of_n n)
      \<in> (\<lambda>s. (board_state_1d s, g_of_n s - g_of_n n)) ` set ss"
    using assms(3) by (intro imageI nth_mem)
  then have "(board_state_1d (ss ! j), g_of_n (ss ! j) - g_of_n n)
      \<in> set (board_moves (board_state_1d n))"
    using expand_board_moves[OF assms(1,2)] by (simp flip: set_map)
  with s wf show ?thesis unfolding succ_of_def by blast
qed

lemma expand_covers_board_moves:
  assumes "wf_node n" "expand ids k n = Inr ss" "board_step (board_state_1d n) c"
  shows "\<exists>s \<in> set ss. board_state_1d s = c"
proof -
  from assms(3) have "c \<in> fst ` set (map (\<lambda>s. (board_state_1d s, g_of_n s - g_of_n n)) ss)"
    unfolding board_step_def expand_board_moves[OF assms(1,2)] .
  then show ?thesis by auto
qed

lemma entry_state_simp: "entry_state (p, i, s) = s"
  by (simp add: entry_state_def)

lemma bfs_inv_head_least:
  assumes "bfs_inv ids start goal k0 (item # rest) cl k"
  shows "0 \<le> depth (entry_state item) \<and> depth (entry_state item) \<le> int k0"
proof -
  from assms have srt: "sorted (map entry_key (item # rest))"
    and pr: "\<forall>e \<in> set (item # rest). fst e = depth (entry_state e) \<and> linked start cl (entry_state e)"
    and w: "\<exists>e \<in> set (item # rest). depth (entry_state e) \<le> int k0"
    unfolding bfs_inv_def by blast+
  from w obtain e where e: "e \<in> set (item # rest)" "depth (entry_state e) \<le> int k0" by blast
  have "entry_key item \<le> entry_key e"
    using srt e(1) by auto
  then have "fst item \<le> fst e" by (auto simp: entry_key_def less_eq_prod_def)
  with pr e have "depth (entry_state item) \<le> int k0" by auto
  moreover have "0 \<le> depth (entry_state item)" using pr by (simp add: linked_def)
  ultimately show ?thesis by simp
qed

lemma bfs_goal_case:
  assumes inv: "bfs_inv ids start goal k0 (item # rest) cl k"
    and least: "\<And>m. (board_step ^^ m) start goal \<Longrightarrow> k0 \<le> m"
    and g: "board_state_1d (entry_state item) = goal"
  shows "\<exists>r. search_loop ids goal ''bfs'' (item # rest) cl added k = Some (Inr r)
    \<and> length (path r) = Suc k0 \<and> number_of_moves r = int k0
    \<and> walk_cost (rev (map board_state_1d (path r))) = Some (g_of_n (hd (path r)))
    \<and> hd (rev (map board_state_1d (path r))) = start
    \<and> board_state_1d (hd (path r)) = goal"
proof -
  define n where "n = entry_state item"
  from inv have ln: "linked start cl n"
    and reach: "(board_step ^^ nat (depth n)) start (board_state_1d n)"
    and cl: "\<forall>c \<in> set cl. linked start cl c"
    and inj: "inj_on id_no (entry_state ` set (item # rest) \<union> set cl)"
    unfolding bfs_inv_def n_def by simp_all
  have inj': "inj_on id_no (set cl)" using inj by (rule inj_on_subset) auto
  from bfs_inv_head_least[OF inv] have d: "0 \<le> depth n" "depth n \<le> int k0"
    by (simp_all add: n_def)
  from reach g have "k0 \<le> nat (depth n)" by (intro least) (simp add: n_def)
  with d have dk: "depth n = int k0" by simp
  from path_loop_linked[OF cl inj' ln dk, of "[n]"] obtain anc where
    anc: "path_loop n [n] cl = Some (Inr ([n] @ anc))" "length anc = k0"
      "walk_cost (rev (map board_state_1d (n # anc))) = Some (g_of_n n)"
      "hd (rev (map board_state_1d (n # anc))) = start"
    by blast
  have p: "print_success_message n cl added ''bfs'' =
     Some (Inr \<lparr>solved_with = ''bfs'', path = n # anc, number_of_moves = int k0,
                 added_to_open = added, added_to_closed = int (length cl)\<rparr>)"
    using anc(1,2) by (simp add: print_success_message_def get_state_path_def)
  have "search_loop ids goal ''bfs'' (item # rest) cl added k =
     Some (Inr \<lparr>solved_with = ''bfs'', path = n # anc, number_of_moves = int k0,
                 added_to_open = added, added_to_closed = int (length cl)\<rparr>)"
    using g p by (subst search_loop.simps) (simp add: heappop_def n_def entry_state_def)
  with anc g show ?thesis by (simp add: n_def)
qed

lemma branch_weight_step:
  assumes "d \<le> k0" "m \<le> 4"
  shows "m * (if Suc d \<le> k0 then branch_weight (k0 - Suc d) else 0) < branch_weight (k0 - d)"
proof (cases "Suc d \<le> k0")
  case True
  then have "k0 - d = Suc (k0 - Suc d)" by simp
  then have "branch_weight (k0 - d) = 4 * branch_weight (k0 - Suc d) + 1" by simp
  moreover have "m * branch_weight (k0 - Suc d) \<le> 4 * branch_weight (k0 - Suc d)"
    using assms(2) by (rule mult_le_mono1)
  ultimately have "m * branch_weight (k0 - Suc d) < branch_weight (k0 - d)" by linarith
  with True show ?thesis by (simp only: if_True)
next
  case False
  with assms(1) have "k0 - d = 0" by simp
  with False show ?thesis by simp
qed

lemma bfs_step_case:
  assumes inj: "inj ids"
    and inv: "bfs_inv ids start goal k0 (item # rest) cl k"
    and ng: "board_state_1d (entry_state item) \<noteq> goal"
  shows "\<exists>ss. expand ids k (entry_state item) = Inr ss
    \<and> bfs_inv ids start goal k0 (push_expansions ''bfs'' ss rest) (cl @ [entry_state item])
         (k + length ss)
    \<and> sum_list (map (entry_weight k0) (push_expansions ''bfs'' ss rest))
         < sum_list (map (entry_weight k0) (item # rest))"
proof -
  define n where "n = entry_state item"
  define d where "d = nat (depth n)"
  from inv have srt: "sorted (map entry_key (item # rest))"
    and props: "\<forall>e \<in> set (item # rest). fst e = depth (entry_state e)
            \<and> linked start cl (entry_state e)
            \<and> (board_step ^^ nat (depth (entry_state e))) start (board_state_1d (entry_state e))"
    and cl: "\<forall>c \<in> set cl. linked start cl c"
    and idb: "\<forall>c \<in> entry_state ` set (item # rest) \<union> set cl. \<exists>j < k. id_no c = ids j"
    and inj_old: "inj_on id_no (entry_state ` set (item # rest) \<union> set cl)"
    and wit: "\<exists>e \<in> set (item # rest). depth (entry_state e) \<le> int k0
            \<and> (board_step ^^ (k0 - nat (depth (entry_state e)))) (board_state_1d (entry_state e)) goal"
    unfolding bfs_inv_def by simp_all
  from props have ln: "linked start cl n"
    and reach: "(board_step ^^ d) start (board_state_1d n)"
    by (simp_all add: n_def d_def)
  have wf: "wf_node n" using ln by (simp add: linked_def)
  from bfs_inv_head_least[OF inv] have dn: "depth n = int d" "d \<le> k0"
    unfolding n_def[symmetric] d_def by linarith+
  from wf_node_expand_defined[OF wf, of ids k] obtain ss where ss: "expand ids k n = Inr ss"
    by blast
  note succ = expand_successors_linked[OF wf ss]
  define ol' where "ol' = push_expansions ''bfs'' ss rest"
  define cl' where "cl' = cl @ [n]"
  have set_ol': "set ol' = set rest \<union> (\<lambda>s. (depth s, id_no s, s)) ` set ss"
    unfolding ol'_def by (rule push_bfs_set)
  have sub: "set cl \<subseteq> set cl'" by (auto simp: cl'_def)
  have n_cl': "n \<in> set cl'" by (simp add: cl'_def)
  \<comment> \<open>each successor\<close>
  have new: "depth s = int (Suc d) \<and> linked start cl' s
      \<and> (board_step ^^ Suc d) start (board_state_1d s) \<and> (\<exists>j < length ss. id_no s = ids (k + j))"
    if "s \<in> set ss" for s
  proof -
    from that obtain j where j: "j < length ss" "ss ! j = s" by (auto simp: in_set_conv_nth)
    from succ[OF j(1)] j(2) have
      s: "depth s = depth n + 1" "parent_id s = Some (id_no n)" "id_no s = ids (k + j)"
        "wf_node s" "(board_state_1d s, g_of_n s - g_of_n n) \<in> set (board_moves (board_state_1d n))"
      by simp_all
    have ds: "depth s = int (Suc d)" using s(1) dn(1) by simp
    have "linked start cl' s"
      unfolding linked_def using s n_cl' ds by auto
    moreover have "board_step (board_state_1d n) (board_state_1d s)"
      unfolding board_step_def using s(5) by force
    with reach have "(board_step ^^ Suc d) start (board_state_1d s)" by (rule relpowp_Suc_I)
    ultimately show ?thesis using ds s(3) j(1) by blast
  qed
  \<comment> \<open>the six parts of the invariant\<close>
  have i1: "sorted (map entry_key ol')"
    unfolding ol'_def using srt by (intro push_bfs_sorted) simp
  have i2: "\<forall>e \<in> set ol'. fst e = depth (entry_state e) \<and> linked start cl' (entry_state e)
      \<and> (board_step ^^ nat (depth (entry_state e))) start (board_state_1d (entry_state e))"
  proof
    fix e assume "e \<in> set ol'"
    then consider "e \<in> set rest" | s where "s \<in> set ss" "e = (depth s, id_no s, s)"
      unfolding set_ol' by blast
    then show "fst e = depth (entry_state e) \<and> linked start cl' (entry_state e)
      \<and> (board_step ^^ nat (depth (entry_state e))) start (board_state_1d (entry_state e))"
    proof cases
      case 1
      with props linked_mono[OF _ sub] show ?thesis by auto
    next
      case 2
      from new[OF 2(1)] have a: "depth s = int (Suc d)" "linked start cl' s"
        "(board_step ^^ Suc d) start (board_state_1d s)" by blast+
      have b: "nat (depth s) = Suc d" using a(1) by simp
      show ?thesis unfolding 2(2) entry_state_simp fst_conv b using a(2,3) by blast
    qed
  qed
  have i3: "\<forall>c \<in> set cl'. linked start cl' c"
    using cl ln linked_mono[OF _ sub] by (auto simp: cl'_def)
  have nodes: "entry_state ` set ol' \<union> set cl' = (entry_state ` set (item # rest) \<union> set cl) \<union> set ss"
    unfolding set_ol' cl'_def by (auto simp: entry_state_simp n_def image_Un image_image)
  have i4: "\<forall>c \<in> entry_state ` set ol' \<union> set cl'. \<exists>j < k + length ss. id_no c = ids j"
  proof
    fix c assume "c \<in> entry_state ` set ol' \<union> set cl'"
    then consider "c \<in> entry_state ` set (item # rest) \<union> set cl" | "c \<in> set ss"
      unfolding nodes by blast
    then show "\<exists>j < k + length ss. id_no c = ids j"
    proof cases
      case 1
      with idb obtain j where "j < k" "id_no c = ids j" by blast
      then show ?thesis by (intro exI[of _ j]) simp
    next
      case 2
      from new[OF this] obtain j where "j < length ss" "id_no c = ids (k + j)" by blast
      then show ?thesis by (intro exI[of _ "k + j"]) simp
    qed
  qed
  define A where "A = entry_state ` set (item # rest) \<union> set cl"
  have i5: "inj_on id_no (entry_state ` set ol' \<union> set cl')"
    unfolding nodes A_def[symmetric]
  proof (rule inj_onI)
    fix x y
    assume x: "x \<in> A \<union> set ss" and y: "y \<in> A \<union> set ss" and eq: "id_no x = id_no y"
    have old_new: False if "a \<in> A" "b \<in> set ss" "id_no a = id_no b" for a b
    proof -
      from idb that(1) obtain j where j: "j < k" "id_no a = ids j" unfolding A_def by blast
      from new[OF that(2)] obtain j' where "id_no b = ids (k + j')" by blast
      with j(2) that(3) have "ids j = ids (k + j')" by simp
      with inj have "j = k + j'" by (rule injD)
      with j(1) show False by simp
    qed
    have new_new: "a = b" if "a \<in> set ss" "b \<in> set ss" "id_no a = id_no b" for a b
    proof -
      from that(1) obtain j where j: "j < length ss" "ss ! j = a" by (auto simp: in_set_conv_nth)
      from that(2) obtain j' where j': "j' < length ss" "ss ! j' = b" by (auto simp: in_set_conv_nth)
      from succ[OF j(1)] j(2) have "id_no a = ids (k + j)" by simp
      moreover from succ[OF j'(1)] j'(2) have "id_no b = ids (k + j')" by simp
      ultimately have "ids (k + j) = ids (k + j')" using that(3) by simp
      with inj have "k + j = k + j'" by (rule injD)
      with j(2) j'(2) show ?thesis by simp
    qed
    have old_old: "a = b" if "a \<in> A" "b \<in> A" "id_no a = id_no b" for a b
      using inj_onD[OF inj_old that(3)] that(1,2) unfolding A_def by blast
    from x y consider "x \<in> A" "y \<in> A" | "x \<in> A" "y \<in> set ss" | "x \<in> set ss" "y \<in> A"
      | "x \<in> set ss" "y \<in> set ss" by blast
    then show "x = y"
    proof cases
      case 1
      then show ?thesis using eq by (rule old_old)
    next
      case 2
      with old_new[OF 2 eq] show ?thesis by simp
    next
      case 3
      with old_new[OF 3(2,1) eq[symmetric]] show ?thesis by simp
    next
      case 4
      then show ?thesis using eq by (rule new_new)
    qed
  qed
  have i6: "\<exists>e \<in> set ol'. depth (entry_state e) \<le> int k0
      \<and> (board_step ^^ (k0 - nat (depth (entry_state e)))) (board_state_1d (entry_state e)) goal"
  proof -
    from wit obtain e where e: "e \<in> set (item # rest)" "depth (entry_state e) \<le> int k0"
      "(board_step ^^ (k0 - nat (depth (entry_state e)))) (board_state_1d (entry_state e)) goal"
      by blast
    show ?thesis
    proof (cases "e = item")
      case False
      with e have "e \<in> set ol'" unfolding set_ol' by simp
      with e(2,3) show ?thesis by blast
    next
      case True
      with e(3) have r: "(board_step ^^ (k0 - d)) (board_state_1d n) goal"
        by (simp add: n_def d_def)
      have "k0 - d \<noteq> 0"
      proof
        assume "k0 - d = 0"
        with r have "board_state_1d n = goal" by simp
        with ng show False by (simp add: n_def)
      qed
      then obtain r' where r': "k0 - d = Suc r'" by (cases "k0 - d") auto
      from r have "(board_step ^^ Suc r') (board_state_1d n) goal" by (simp only: r')
      from relpowp_Suc_D2[OF this] obtain c where c: "board_step (board_state_1d n) c"
        "(board_step ^^ r') c goal" by blast
      from expand_covers_board_moves[OF wf ss c(1)] obtain s where
        s: "s \<in> set ss" "board_state_1d s = c" by blast
      from new[OF s(1)] have ds: "depth s = int (Suc d)" by blast
      have "(depth s, id_no s, s) \<in> set ol'" unfolding set_ol' using s(1) by simp
      moreover have "depth (entry_state (depth s, id_no s, s)) \<le> int k0"
        using ds r' by (simp add: entry_state_simp)
      moreover have "k0 - nat (depth s) = r'" using ds r' by simp
      then have "(board_step ^^ (k0 - nat (depth (entry_state (depth s, id_no s, s)))))
          (board_state_1d (entry_state (depth s, id_no s, s))) goal"
        using c(2) s(2) by (simp add: entry_state_simp)
      ultimately show ?thesis by blast
    qed
  qed
  \<comment> \<open>the measure\<close>
  have w_item: "entry_weight k0 item = branch_weight (k0 - d)"
    unfolding entry_weight_def n_def[symmetric] dn(1) using dn(2) by simp
  have w_new: "entry_weight k0 (depth s, id_no s, s)
      = (if Suc d \<le> k0 then branch_weight (k0 - Suc d) else 0)" if "s \<in> set ss" for s
  proof -
    from new[OF that] have ds: "depth s = int (Suc d)" by blast
    have a: "nat (depth s) = Suc d" "0 \<le> depth s" "(depth s \<le> int k0) = (Suc d \<le> k0)"
      unfolding ds by (simp_all only: nat_int of_nat_0_le_iff of_nat_le_iff)
    show ?thesis unfolding entry_weight_def entry_state_simp a(1,3) using a(2) by simp
  qed
  have "sum_list (map (\<lambda>s. entry_weight k0 (depth s, id_no s, s)) ss)
      = length ss * (if Suc d \<le> k0 then branch_weight (k0 - Suc d) else 0)"
    using w_new by (rule sum_list_const)
  also have "\<dots> < branch_weight (k0 - d)"
    using dn(2) expand_length[OF ss] by (rule branch_weight_step)
  finally have "sum_list (map (entry_weight k0) ol') < sum_list (map (entry_weight k0) (item # rest))"
    unfolding ol'_def push_bfs_sum by (simp add: w_item)
  moreover have "bfs_inv ids start goal k0 ol' cl' (k + length ss)"
    unfolding bfs_inv_def using i1 i2 i3 i4 i5 i6 by (intro conjI)
  ultimately show ?thesis using ss unfolding ol'_def cl'_def n_def
    by (intro exI[of _ ss] conjI)
qed

lemma bfs_loop_returns:
  assumes inj: "inj ids"
    and least: "\<And>m. (board_step ^^ m) start goal \<Longrightarrow> k0 \<le> m"
  shows "bfs_inv ids start goal k0 ol cl k \<Longrightarrow>
    \<exists>r. search_loop ids goal ''bfs'' ol cl added k = Some (Inr r)
    \<and> length (path r) = Suc k0 \<and> number_of_moves r = int k0
    \<and> walk_cost (rev (map board_state_1d (path r))) = Some (g_of_n (hd (path r)))
    \<and> hd (rev (map board_state_1d (path r))) = start
    \<and> board_state_1d (hd (path r)) = goal"
proof (induction "sum_list (map (entry_weight k0) ol)" arbitrary: ol cl k added rule: less_induct)
  case less
  from less.prems have "ol \<noteq> []" unfolding bfs_inv_def by auto
  then obtain item rest where ol: "ol = item # rest" by (cases ol) auto
  note inv = less.prems[unfolded ol]
  show ?case
  proof (cases "board_state_1d (entry_state item) = goal")
    case True
    from bfs_goal_case[OF inv least True, of added] show ?thesis unfolding ol .
  next
    case False
    from bfs_step_case[OF inj inv False] obtain ss where
      ss: "expand ids k (entry_state item) = Inr ss"
        "bfs_inv ids start goal k0 (push_expansions ''bfs'' ss rest) (cl @ [entry_state item])
           (k + length ss)"
        "sum_list (map (entry_weight k0) (push_expansions ''bfs'' ss rest))
           < sum_list (map (entry_weight k0) (item # rest))"
      by blast
    have unfold: "search_loop ids goal ''bfs'' (item # rest) cl added k =
        search_loop ids goal ''bfs'' (push_expansions ''bfs'' ss rest) (cl @ [entry_state item])
          (added + int (length ss)) (k + length ss)"
      using False ss(1) by (subst search_loop.simps) (simp add: heappop_def entry_state_def)
    from less.hyps[OF ss(3)[folded ol] ss(2), of "added + int (length ss)"]
    show ?thesis unfolding ol unfold .
  qed
qed

section \<open>Fewest moves against least cost\<close>

lemma dirs_values:
  "dirs ''up'' = Some (- 4)" "dirs ''down'' = Some 4" "dirs ''left'' = Some (- 1)"
  "dirs ''right'' = Some 1"
  by (simp_all add: dirs_def)

lemma targets_of_valid_moves:
  "map (\<lambda>d. int z + the (dirs d)) (valid_moves (int (z div 4)) (int (z mod 4)))
     = map int (blank_targets z)"
proof -
  have a: "0 < z div 4 \<Longrightarrow> int z + - 4 = int (z - 4)" by simp
  have b: "0 < z mod 4 \<Longrightarrow> int z + - 1 = int (z - 1)" by (cases z) auto
  have up: "map (\<lambda>d. int z + the (dirs d)) (if int (z div 4) > 0 then [''up''] else [])
      = map int (if 0 < z div 4 then [z - 4] else [])"
    using a by (simp only: dirs_values list.map option.sel split: if_split) simp
  have down: "map (\<lambda>d. int z + the (dirs d)) (if int (z div 4) < 3 then [''down''] else [])
      = map int (if z div 4 < 3 then [z + 4] else [])"
    by (simp only: dirs_values list.map option.sel split: if_split) simp
  have left: "map (\<lambda>d. int z + the (dirs d)) (if int (z mod 4) > 0 then [''left''] else [])
      = map int (if 0 < z mod 4 then [z - 1] else [])"
    using b by (simp only: dirs_values list.map option.sel split: if_split) simp
  have right: "map (\<lambda>d. int z + the (dirs d)) (if int (z mod 4) < 3 then [''right''] else [])
      = map int (if z mod 4 < 3 then [z + 1] else [])"
    by (simp only: dirs_values list.map option.sel split: if_split) simp
  show ?thesis
    unfolding valid_moves_def blank_targets_def map_append up down left right ..
qed

lemma blank_position:
  assumes "is_board b" "z < 16" "b ! z = 0"
  shows "length (takeWhile (\<lambda>x. x \<noteq> 0) b) = z"
proof -
  have len: "length b = 16" using assms(1) by (rule is_board_length)
  have "b ! z \<in> set b" using assms(2) len by (intro nth_mem) simp
  then have "0 \<in> set b" using assms(3) by simp
  then have lt: "length (takeWhile (\<lambda>x. x \<noteq> 0) b) < length b"
    by (induction b) auto
  from nth_length_takeWhile[OF lt] have "b ! length (takeWhile (\<lambda>x. x \<noteq> 0) b) = 0" by simp
  then have "b ! length (takeWhile (\<lambda>x. x \<noteq> 0) b) = b ! z" using assms(3) by simp
  with nth_eq_iff_index_eq[OF is_board_distinct[OF assms(1)] lt, of z] assms(2) len
  show ?thesis by simp
qed

lemma board_moves_slide:
  assumes "is_board b"
  shows "board_moves b = slide_moves b"
proof -
  define n0 where "n0 = PuzzleState None 0 b (to_2d_array b) None 0 0 0 0 0 0"
  have wf0: "wf_node n0" unfolding n0_def using assms by (rule wf_fresh_node)
  have b0: "board_state_1d n0 = b" "g_of_n n0 = 0" by (simp_all add: n0_def)
  from wf_node_blank_index[OF wf0] obtain z where z: "z < 16" "b ! z = 0" unfolding b0 by blast
  define ds where "ds = valid_moves (int (z div 4)) (int (z mod 4))"
  from expand_valid[OF wf0 z(1), of id 0] z(2) obtain ss where
    ss: "expand id 0 n0 = Inr ss" "length ss = length ds"
      "\<forall>j < length ss. succ_of n0 z (id (0 + j)) (ds ! j) (ss ! j)"
    unfolding ds_def b0 by blast
  have bm: "board_moves b = map (\<lambda>s. (board_state_1d s, g_of_n s)) ss"
    using ss(1) by (simp add: board_moves_def new_goal_state n0_def[symmetric])
  have tg: "map (\<lambda>d. int z + the (dirs d)) ds = map int (blank_targets z)"
    unfolding ds_def by (rule targets_of_valid_moves)
  have "length (map (\<lambda>d. int z + the (dirs d)) ds) = length (map int (blank_targets z))"
    by (simp only: tg)
  then have lt: "length ds = length (blank_targets z)" by simp
  have sl: "slide_moves b
      = map (\<lambda>t. (b[z := b ! t, t := 0], if b ! t < 10 then 1 else 10)) (blank_targets z)"
    by (simp add: slide_moves_def blank_position[OF assms z])
  have "map (\<lambda>s. (board_state_1d s, g_of_n s)) ss
      = map (\<lambda>t. (b[z := b ! t, t := 0], if b ! t < 10 then 1 else 10)) (blank_targets z)"
  proof (rule nth_equalityI)
    show "length (map (\<lambda>s. (board_state_1d s, g_of_n s)) ss)
        = length (map (\<lambda>t. (b[z := b ! t, t := 0], if b ! t < 10 then 1 else 10)) (blank_targets z))"
      using ss(2) lt by simp
  next
    fix j assume "j < length (map (\<lambda>s. (board_state_1d s, g_of_n s)) ss)"
    then have j: "j < length ss" "j < length ds" "j < length (blank_targets z)"
      using ss(2) lt by simp_all
    from ss(3) j(1) obtain delta t where
      t: "dirs (ds ! j) = Some delta" "int z + delta = int t"
        "board_state_1d (ss ! j) = b[z := b ! t, t := 0]"
        "g_of_n (ss ! j) = 0 + (if b ! t < 10 then 1 else 10)"
      unfolding succ_of_def b0 by blast
    have "map (\<lambda>d. int z + the (dirs d)) ds ! j = map int (blank_targets z) ! j"
      by (simp only: tg)
    then have "int z + delta = int (blank_targets z ! j)" using j(2,3) t(1) by simp
    with t(2) have "blank_targets z ! j = t" by simp
    with t(3,4) j show "map (\<lambda>s. (board_state_1d s, g_of_n s)) ss ! j
        = map (\<lambda>t. (b[z := b ! t, t := 0], if b ! t < 10 then 1 else 10)) (blank_targets z) ! j"
      by simp
  qed
  with bm sl show ?thesis by simp
qed

lemma walk_cost_nonneg:
  "walk_cost bs = Some c \<Longrightarrow> is_board (hd bs) \<Longrightarrow> 0 \<le> c"
proof (induction bs arbitrary: c rule: walk_cost.induct)
  case 1
  then show ?case by simp
next
  case (2 b)
  then show ?case by simp
next
  case (3 b c' rest)
  from "3.prems"(1) obtain w v where w: "map_of (board_moves b) c' = Some w"
    and v: "walk_cost (c' # rest) = Some v" and c: "c = w + v"
    by (auto split: option.splits)
  have b: "is_board b" using "3.prems"(2) by simp
  from map_of_SomeD[OF w] have m: "(c', w) \<in> set (board_moves b)" .
  from board_moves_elem[OF b m] have "0 \<le> w" by auto
  moreover from "3.IH"[OF w v] board_moves_is_board[OF b m] have "0 \<le> v" by simp
  ultimately show ?case using c by simp
qed

lemma all_above_sound:
  "all_above goal bound m front \<Longrightarrow> (b0, c0) \<in> set front \<Longrightarrow> is_board b0 \<Longrightarrow>
   walk_cost bs = Some c \<Longrightarrow> hd bs = b0 \<Longrightarrow> last bs = goal \<Longrightarrow> length bs \<le> Suc m \<Longrightarrow>
   bound < c0 + c"
proof (induction bs arbitrary: c b0 c0 m front rule: walk_cost.induct)
  case 1
  then show ?case by simp
next
  case (2 b)
  then have "list_all (\<lambda>(b, c). b \<noteq> goal \<or> bound < c) front" by (cases m) simp_all
  with "2.prems" show ?case by (auto simp: list_all_iff)
next
  case (3 b c' rest)
  from "3.prems"(4) obtain w v where w: "map_of (board_moves b) c' = Some w"
    and v: "walk_cost (c' # rest) = Some v" and c: "c = w + v"
    by (auto split: option.splits)
  have b: "b = b0" using "3.prems"(5) by simp
  from "3.prems"(7) obtain m' where m: "m = Suc m'" by (cases m) auto
  from map_of_SomeD[OF w] have mem: "(c', w) \<in> set (slide_moves b0)"
    using board_moves_slide[OF "3.prems"(3)] b by simp
  have c'b: "is_board c'"
    using board_moves_is_board[OF "3.prems"(3)] map_of_SomeD[OF w] b by simp
  from walk_cost_nonneg[OF v] c'b have v0: "0 \<le> v" by simp
  show ?case
  proof (cases "c0 + w \<le> bound")
    case False
    with v0 c show ?thesis by simp
  next
    case True
    have "(c', c0 + w) \<in> set (extend bound front)"
      unfolding extend_def using "3.prems"(2) mem True by force
    moreover have "all_above goal bound m' (extend bound front)"
      using "3.prems"(1) m by simp
    ultimately have "bound < (c0 + w) + v"
      using c'b v "3.prems"(6,7) m by (intro "3.IH"[OF w]) simp_all
    with c show ?thesis by simp
  qed
qed

lemma bfs_solve_returns:
  assumes inj: "inj ids" and st: "is_board start"
    and w0: "walk_cost bs0 = Some c0" "hd bs0 = start" "last bs0 = goal"
  shows "\<exists>r. solve ids start goal ''bfs'' = Some (Inr r)
    \<and> number_of_moves r = int (length (path r)) - 1
    \<and> walk_cost (rev (map board_state_1d (path r))) = Some (g_of_n (hd (path r)))
    \<and> hd (rev (map board_state_1d (path r))) = start
    \<and> last (rev (map board_state_1d (path r))) = goal
    \<and> (\<forall>bs c. walk_cost bs = Some c \<and> hd bs = start \<and> last bs = goal
          \<longrightarrow> number_of_moves r \<le> int (length bs) - 1)"
proof -
  from walk_cost_steps[OF w0(1)] w0(2,3)
  have reach0: "(board_step ^^ (length bs0 - 1)) start goal" by simp
  define k0 where "k0 = (LEAST m. (board_step ^^ m) start goal)"
  have k0: "(board_step ^^ k0) start goal"
    unfolding k0_def using reach0 by (rule LeastI)
  have least: "k0 \<le> m" if "(board_step ^^ m) start goal" for m
    unfolding k0_def using that by (rule Least_le)
  have step_board: "is_board c" if "is_board b" "board_step b c" for b c
    using that board_moves_is_board unfolding board_step_def by force
  have reach_board: "is_board c" if "(board_step ^^ m) start c" for m c
    using that by (induction m arbitrary: c) (auto simp: st intro: step_board)
  have gb: "is_board goal" using k0 by (rule reach_board)
  from start_state_defined[OF st gb, of ids] obtain g s where
    gs: "new_PuzzleState (ids 0) goal None None 0 0 = Inr g"
      "new_PuzzleState (ids 1) start (Some g) None 0 0 = Inr s"
      "wf_node s" "board_state_1d s = start" "depth s = 0" "g_of_n s = 0" "id_no s = ids 1"
    by blast
  have inv: "bfs_inv ids start goal k0 [(0, id_no s, s)] [] 2"
    unfolding bfs_inv_def
  proof (intro conjI)
    show "sorted (map entry_key [(0, id_no s, s)])" by simp
    show "\<forall>item \<in> set [(0, id_no s, s)]. fst item = depth (entry_state item)
        \<and> linked start [] (entry_state item)
        \<and> (board_step ^^ nat (depth (entry_state item))) start (board_state_1d (entry_state item))"
      using gs(3-6) by (simp add: entry_state_simp linked_def)
    show "\<forall>n \<in> set []. linked start [] n" by simp
    show "\<forall>n \<in> entry_state ` set [(0, id_no s, s)] \<union> set []. \<exists>j < 2. id_no n = ids j"
      using gs(7) by (auto simp: entry_state_simp intro: exI[of _ 1])
    show "inj_on id_no (entry_state ` set [(0, id_no s, s)] \<union> set [])" by simp
    show "\<exists>item \<in> set [(0, id_no s, s)]. depth (entry_state item) \<le> int k0
        \<and> (board_step ^^ (k0 - nat (depth (entry_state item)))) (board_state_1d (entry_state item)) goal"
      using gs(4,5) k0 by (simp add: entry_state_simp)
  qed
  from bfs_loop_returns[OF inj least inv, of 0] obtain r where
    r: "search_loop ids goal ''bfs'' [(0, id_no s, s)] [] 0 2 = Some (Inr r)"
      "length (path r) = Suc k0" "number_of_moves r = int k0"
      "walk_cost (rev (map board_state_1d (path r))) = Some (g_of_n (hd (path r)))"
      "hd (rev (map board_state_1d (path r))) = start"
      "board_state_1d (hd (path r)) = goal"
    by blast
  have sol: "solve ids start goal ''bfs'' = Some (Inr r)"
    using gs(1,2) r(1) by (simp add: solve_def heappush_empty)
  have ne: "path r \<noteq> []" using r(2) by auto
  have la: "last (rev (map board_state_1d (path r))) = goal"
    using r(6) ne by (simp add: last_rev hd_map)
  have mv: "number_of_moves r = int (length (path r)) - 1" using r(2,3) by simp
  have mn: "number_of_moves r \<le> int (length bs) - 1"
    if "walk_cost bs = Some c \<and> hd bs = start \<and> last bs = goal" for bs c
  proof -
    from that walk_cost_steps[of bs c] have "bs \<noteq> []" "(board_step ^^ (length bs - 1)) start goal"
      by auto
    from least[OF this(2)] this(1) show ?thesis unfolding r(3)
      by (cases bs) simp_all
  qed
  from sol mv r(4,5) la mn show ?thesis by blast
qed

lemma walk_cost_slide: "is_board (hd bs) \<Longrightarrow> walk_cost bs = slide_cost bs"
proof (induction bs rule: walk_cost.induct)
  case 1
  then show ?case by simp
next
  case (2 b)
  then show ?case by simp
next
  case (3 b c rest)
  then have b: "is_board b" by simp
  show ?case
  proof (cases "map_of (board_moves b) c")
    case None
    then show ?thesis using board_moves_slide[OF b] by simp
  next
    case (Some w)
    from board_moves_is_board[OF b map_of_SomeD[OF Some]] have "is_board c" .
    with "3.IH"[OF Some] Some board_moves_slide[OF b] show ?thesis by simp
  qed
qed

lemma detour_start_board: "is_board detour_start"
  by (simp add: is_board_check detour_start_def)

lemma short_walk_cost:
  "walk_cost short_walk = Some 26 \<and> hd short_walk = detour_start \<and> last short_walk = detour_goal"
proof -
  have "is_board (hd short_walk)" using detour_start_board by (simp add: short_walk_def detour_start_def)
  then have "walk_cost short_walk = slide_cost short_walk" by (rule walk_cost_slide)
  also have "\<dots> = Some 26" by code_simp
  finally show ?thesis by (simp add: short_walk_def detour_start_def detour_goal_def)
qed

lemma cheap_walk_cost:
  "walk_cost cheap_walk = Some 12 \<and> hd cheap_walk = detour_start \<and> last cheap_walk = detour_goal"
proof -
  have "is_board (hd cheap_walk)" using detour_start_board by (simp add: cheap_walk_def detour_start_def)
  then have "walk_cost cheap_walk = slide_cost cheap_walk" by (rule walk_cost_slide)
  also have "\<dots> = Some 12" by code_simp
  finally show ?thesis by (simp add: cheap_walk_def detour_start_def detour_goal_def)
qed

lemma detour_all_above: "all_above detour_goal 12 8 [(detour_start, 0)]"
  by code_simp

lemma bfs_not_cheapest:
  assumes "inj ids"
  shows "\<exists>r bs c. solve ids detour_start detour_goal ''bfs'' = Some (Inr r)
    \<and> walk_cost (rev (map board_state_1d (path r))) = Some (g_of_n (hd (path r)))
    \<and> walk_cost bs = Some c \<and> hd bs = detour_start \<and> last bs = detour_goal
    \<and> c < g_of_n (hd (path r))"
proof -
  from short_walk_cost have sw: "walk_cost short_walk = Some 26" "hd short_walk = detour_start"
    "last short_walk = detour_goal" by simp_all
  from bfs_solve_returns[OF assms detour_start_board sw] obtain r where
    r: "solve ids detour_start detour_goal ''bfs'' = Some (Inr r)"
      "number_of_moves r = int (length (path r)) - 1"
      "walk_cost (rev (map board_state_1d (path r))) = Some (g_of_n (hd (path r)))"
      "hd (rev (map board_state_1d (path r))) = detour_start"
      "last (rev (map board_state_1d (path r))) = detour_goal"
      "\<forall>bs c. walk_cost bs = Some c \<and> hd bs = detour_start \<and> last bs = detour_goal
          \<longrightarrow> number_of_moves r \<le> int (length bs) - 1"
    by blast
  from r(6) sw have "number_of_moves r \<le> int (length short_walk) - 1" by blast
  then have len: "length (rev (map board_state_1d (path r))) \<le> Suc 8"
    unfolding r(2) by (simp add: short_walk_def)
  have "12 < 0 + g_of_n (hd (path r))"
    using detour_all_above _ detour_start_board r(3,4,5) len
    by (rule all_above_sound) simp
  with r(1,3) cheap_walk_cost show ?thesis by (intro exI[of _ r] exI[of _ cheap_walk] exI[of _ 12]) simp
qed

text \<open>
  Claim C4. With an allocator that never issues an identifier twice, a start board that
  is a permutation of 0..15 and a goal some move sequence reaches from it, \<open>solve\<close> with
  method bfs returns a report; its path, read from the start, is a move sequence from the
  start to the goal whose cost is the g of the goal node, the number of moves reported is
  the length of the path minus 1, and no move sequence from the start to the goal has
  fewer moves. The cost need not be least: on \<open>detour_start\<close> and \<open>detour_goal\<close> another
  move sequence costs strictly less than the reported path.
\<close>

theorem bfs_fewest_moves_not_cheapest:
  assumes "inj ids" "is_board start"
    and "walk_cost bs0 = Some c0" "hd bs0 = start" "last bs0 = goal"
  shows "(\<exists>r. solve ids start goal ''bfs'' = Some (Inr r)
      \<and> number_of_moves r = int (length (path r)) - 1
      \<and> walk_cost (rev (map board_state_1d (path r))) = Some (g_of_n (hd (path r)))
      \<and> hd (rev (map board_state_1d (path r))) = start
      \<and> last (rev (map board_state_1d (path r))) = goal
      \<and> (\<forall>bs c. walk_cost bs = Some c \<and> hd bs = start \<and> last bs = goal
            \<longrightarrow> number_of_moves r \<le> int (length bs) - 1))
    \<and> (\<exists>r bs c. solve ids detour_start detour_goal ''bfs'' = Some (Inr r)
      \<and> walk_cost (rev (map board_state_1d (path r))) = Some (g_of_n (hd (path r)))
      \<and> walk_cost bs = Some c \<and> hd bs = detour_start \<and> last bs = detour_goal
      \<and> c < g_of_n (hd (path r)))"
  using bfs_solve_returns[OF assms] bfs_not_cheapest[OF assms(1)] by (rule conjI)

theorem bfs_fewest_moves_not_cheapest_witness:
  "inj (id :: nat \<Rightarrow> nat) \<and> is_board detour_start
   \<and> walk_cost short_walk = Some 26 \<and> hd short_walk = detour_start
   \<and> last short_walk = detour_goal
   \<and> (\<exists>r. solve id detour_start detour_goal ''bfs'' = Some (Inr r)
         \<and> number_of_moves r = int (length (path r)) - 1 \<and> number_of_moves r \<le> 8
         \<and> 12 < g_of_n (hd (path r)))"
proof -
  from short_walk_cost have sw: "walk_cost short_walk = Some 26" "hd short_walk = detour_start"
    "last short_walk = detour_goal" by simp_all
  from cheap_walk_cost have cw: "walk_cost cheap_walk = Some 12" by simp
  have i: "inj (id :: nat \<Rightarrow> nat)" by simp
  from bfs_fewest_moves_not_cheapest[OF i detour_start_board sw] obtain r where
    r: "solve id detour_start detour_goal ''bfs'' = Some (Inr r)"
      "number_of_moves r = int (length (path r)) - 1"
      "walk_cost (rev (map board_state_1d (path r))) = Some (g_of_n (hd (path r)))"
      "hd (rev (map board_state_1d (path r))) = detour_start"
      "last (rev (map board_state_1d (path r))) = detour_goal"
      "\<forall>bs c. walk_cost bs = Some c \<and> hd bs = detour_start \<and> last bs = detour_goal
          \<longrightarrow> number_of_moves r \<le> int (length bs) - 1"
    by blast
  from r(6) sw have m: "number_of_moves r \<le> int (length short_walk) - 1" by blast
  then have m8: "number_of_moves r \<le> 8" by (simp add: short_walk_def)
  from m have len: "length (rev (map board_state_1d (path r))) \<le> Suc 8"
    unfolding r(2) by (simp add: short_walk_def)
  have "12 < 0 + g_of_n (hd (path r))"
    using detour_all_above _ detour_start_board r(3,4,5) len
    by (rule all_above_sound) simp
  with r(1,2) m8 i detour_start_board sw show ?thesis by (intro conjI exI[of _ r]) simp_all
qed

end
